theory Spec2Isabelle
  imports Main
begin

section \<open>Data model of \<^verbatim>\<open>pg_query.c\<close>\<close>

text \<open>
  \<^verbatim>\<open>struct pgssLocationLen\<close>: the start offset of a constant in the query text and its
  length in bytes, \<open>-1\<close> meaning "ignore". The field \<^verbatim>\<open>length\<close> of the source is
  \<open>length_bytes\<close> here, since \<open>length\<close> is the list function of HOL. Both fields are C
  \<^verbatim>\<open>int\<close>; offsets into a query text stay far below \<open>2^31\<close> (the allocator of
  PostgreSQL refuses requests of a gigabyte or more), so they are modelled as \<open>int\<close>.
\<close>

record pgssLocationLen =
  location :: int
  length_bytes :: int

text \<open>
  \<^verbatim>\<open>struct pgssConstLocations\<close>: the array \<^verbatim>\<open>clocations\<close> is the list of its
  allocated cells; a cell that was never written holds \<open>None\<close>.
\<close>

record pgssConstLocations =
  clocations :: "pgssLocationLen option list"
  clocations_buf_size :: int
  clocations_count :: int

text \<open>
  What one call of \<^verbatim>\<open>core_yylex\<close> reports about a token: \<open>yylloc\<close>, the offset where
  the token starts, and \<open>yyend\<close>, the offset just behind its text, where flex puts a zero
  byte into the scan buffer while the token is the current one. The scanner itself belongs
  to PostgreSQL; the sequence of tokens it returns for the query text is a parameter of
  the model, and the end of that sequence is the return value \<open>0\<close> (end of input).
\<close>

record token =
  yylloc :: int
  yyend :: int

text \<open>
  The ways in which the C code leaves its defined behaviour: one constructor for each
  \<^verbatim>\<open>Assert\<close> of the source, and one for a store behind the end of the
  \<^verbatim>\<open>clocations\<close> array.
\<close>

datatype failure =
  Assert_loc_ge_0
  | Assert_len_to_wrt_ge_0
  | Assert_n_quer_loc_le_query_len
  | Write_past_buffer

definition entries :: "pgssConstLocations \<Rightarrow> pgssLocationLen list" where
  "entries jstate = map the (take (nat (clocations_count jstate)) (clocations jstate))"

definition store_entries :: "pgssLocationLen list \<Rightarrow> pgssConstLocations \<Rightarrow> pgssConstLocations" where
  "store_entries xs jstate =
     jstate\<lparr>clocations := map Some xs @ drop (length xs) (clocations jstate)\<rparr>"

section \<open>\<^verbatim>\<open>comp_location\<close> and the sort\<close>

definition comp_location :: "pgssLocationLen \<Rightarrow> pgssLocationLen \<Rightarrow> int" where
  "comp_location a b =
     (let l = location a; r = location b
      in if l < r then -1 else if l > r then 1 else 0)"

text \<open>
  \<^verbatim>\<open>qsort(..., comp_location)\<close> puts the records into ascending order of
  \<open>location\<close>. The C library leaves the order of records that compare equal open; the
  model takes the stable order.
\<close>

definition qsort_comp_location :: "pgssLocationLen list \<Rightarrow> pgssLocationLen list" where
  "qsort_comp_location xs = sort_key location xs"

section \<open>\<^verbatim>\<open>fill_in_constant_lengths\<close>\<close>

definition NUL :: char where
  "NUL = CHR 0x00"

text \<open>\<^verbatim>\<open>query[loc]\<close>; the byte behind the text is the terminator.\<close>

definition query_at :: "string \<Rightarrow> int \<Rightarrow> char" where
  "query_at query loc = (if 0 \<le> loc \<and> nat loc < length query then query ! nat loc else NUL)"

text \<open>
  \<^verbatim>\<open>yyextra.scanbuf\<close> while a token that ends at \<open>e\<close> is the current one: the copy of
  the query that \<^verbatim>\<open>scanner_init\<close> made, closed by two zero bytes, with the byte at
  \<open>e\<close> overwritten by a zero byte.
\<close>

definition scanbuf :: "string \<Rightarrow> int \<Rightarrow> string" where
  "scanbuf query e = (query @ [NUL, NUL])[nat e := NUL]"

definition strlen :: "string \<Rightarrow> int" where
  "strlen buf = int (length (takeWhile (\<lambda>c. c \<noteq> NUL) buf))"

text \<open>
  The inner \<^verbatim>\<open>for (;;)\<close> loop: lex tokens until one starts at or behind \<open>loc\<close>.
  \<open>None\<close> is \<^verbatim>\<open>tok == 0\<close> on leaving the loop; otherwise the result is the length
  stored into \<^verbatim>\<open>locs[i].length\<close> and the tokens not yet lexed.
\<close>

fun scan_for_constant :: "string \<Rightarrow> int \<Rightarrow> token list \<Rightarrow> (int \<times> token list) option" where
  "scan_for_constant query loc [] = None"
| "scan_for_constant query loc (t # ts) =
     (if yylloc t \<ge> loc then
        (if query_at query loc = CHR ''-'' then
           (case ts of
              [] \<Rightarrow> None
            | t2 # ts2 \<Rightarrow> Some (strlen (drop (nat loc) (scanbuf query (yyend t2))), ts2))
         else Some (strlen (drop (nat loc) (scanbuf query (yyend t))), ts))
      else scan_for_constant query loc ts)"

text \<open>
  The outer loop over \<^verbatim>\<open>locs[i]\<close>, with \<^verbatim>\<open>last_loc\<close> and the scanner position as
  arguments. On end of input the loop is left and the records not yet visited stay as
  they are.
\<close>

fun resolve_lengths ::
  "string \<Rightarrow> int \<Rightarrow> token list \<Rightarrow> pgssLocationLen list \<Rightarrow> failure + pgssLocationLen list" where
  "resolve_lengths query last_loc toks [] = Inr []"
| "resolve_lengths query last_loc toks (s # ss) =
     (let loc = location s in
      if loc < 0 then Inl Assert_loc_ge_0
      else if loc \<le> last_loc then
        (case resolve_lengths query last_loc toks ss of
           Inl f \<Rightarrow> Inl f
         | Inr rs \<Rightarrow> Inr (s # rs))
      else
        (case scan_for_constant query loc toks of
           None \<Rightarrow> Inr (s # ss)
         | Some (len, toks') \<Rightarrow>
             (case resolve_lengths query loc toks' ss of
                Inl f \<Rightarrow> Inl f
              | Inr rs \<Rightarrow> Inr (s\<lparr>length_bytes := len\<rparr> # rs))))"

definition fill_in_constant_lengths ::
  "token list \<Rightarrow> pgssConstLocations \<Rightarrow> string \<Rightarrow> failure + pgssConstLocations" where
  "fill_in_constant_lengths toks jstate query =
     (let locs = (if clocations_count jstate > 1 then qsort_comp_location (entries jstate)
                  else entries jstate)
      in case resolve_lengths query (-1) toks locs of
           Inl f \<Rightarrow> Inl f
         | Inr rs \<Rightarrow> Inr (store_entries rs jstate))"

section \<open>\<^verbatim>\<open>generate_normalized_query\<close>\<close>

text \<open>
  The local variables of the function. \<open>norm_query\<close> holds the bytes written into the
  result buffer so far.
\<close>

record rewrite_state =
  quer_loc :: int
  n_quer_loc :: int
  last_off :: int
  last_tok_len :: int
  norm_query :: string

definition memcpy_from :: "string \<Rightarrow> int \<Rightarrow> int \<Rightarrow> string" where
  "memcpy_from query from len = take (nat len) (drop (nat from) query)"

definition rewrite_init :: rewrite_state where
  "rewrite_init = \<lparr>quer_loc = 0, n_quer_loc = 0, last_off = 0, last_tok_len = 0, norm_query = []\<rparr>"

fun rewrite_spans :: "string \<Rightarrow> rewrite_state \<Rightarrow> pgssLocationLen list \<Rightarrow> failure + rewrite_state" where
  "rewrite_spans query st [] = Inr st"
| "rewrite_spans query st (s # ss) =
     (let off = location s; tok_len = length_bytes s in
      if tok_len < 0 then rewrite_spans query st ss
      else
        let len_to_wrt = off - last_off st - last_tok_len st in
        if len_to_wrt < 0 then Inl Assert_len_to_wrt_ge_0
        else rewrite_spans query
               \<lparr>quer_loc = off + tok_len,
                n_quer_loc = n_quer_loc st + len_to_wrt + 1,
                last_off = off,
                last_tok_len = tok_len,
                norm_query = norm_query st @ memcpy_from query (quer_loc st) len_to_wrt @ ''?''\<rparr>
               ss)"

text \<open>
  The result is the pair of the new string and the value stored into
  \<^verbatim>\<open>*query_len_p\<close>.
\<close>

definition generate_normalized_query ::
  "token list \<Rightarrow> pgssConstLocations \<Rightarrow> string \<Rightarrow> int \<Rightarrow> failure + (string \<times> int)" where
  "generate_normalized_query toks jstate query query_len =
     (case fill_in_constant_lengths toks jstate query of
        Inl f \<Rightarrow> Inl f
      | Inr jstate' \<Rightarrow>
          (case rewrite_spans query rewrite_init (entries jstate') of
             Inl f \<Rightarrow> Inl f
           | Inr st \<Rightarrow>
               let len_to_wrt = query_len - quer_loc st in
               if len_to_wrt < 0 then Inl Assert_len_to_wrt_ge_0
               else
                 let n = n_quer_loc st + len_to_wrt in
                 if n > query_len then Inl Assert_n_quer_loc_le_query_len
                 else Inr (norm_query st @ memcpy_from query (quer_loc st) len_to_wrt, n)))"

section \<open>\<^verbatim>\<open>const_record_walker\<close>\<close>

text \<open>
  The nodes of the raw parse tree, as far as the walk tells them apart: a constant with
  its \<open>location\<close>; any other node that \<^verbatim>\<open>raw_expression_tree_walker\<close> knows, with
  its sub-nodes in the order of the walk; and a node on which
  \<^verbatim>\<open>raw_expression_tree_walker\<close> raises an error. A pointer to a node is
  \<open>node option\<close>, with \<open>None\<close> for \<^verbatim>\<open>NULL\<close>.
\<close>

datatype node =
  A_Const int
  | Interior "node option list"
  | Faulty "node option list"

text \<open>
  \<^verbatim>\<open>ErrorData\<close> of PostgreSQL, with the two fields that \<^verbatim>\<open>new_parse_error\<close> reads.
  A call that can raise an error of PostgreSQL has a \<open>pg_result\<close>: \<open>PG_error\<close> is
  \<^verbatim>\<open>ereport(ERROR)\<close>, which unwinds to the innermost \<^verbatim>\<open>PG_TRY\<close>; what was stored
  before the error stays stored.
\<close>

record ErrorData =
  message :: string
  cursorpos :: int

datatype 'a pg_result = PG_error ErrorData | PG_return 'a

text \<open>
  \<^verbatim>\<open>repalloc\<close> of PostgreSQL raises an error for a request of a gigabyte or more, which
  is \<open>2^27\<close> cells of eight bytes, and when memory is exhausted; \<open>avail\<close>, a parameter
  of the model, is the number of cells that the allocator can serve. When it succeeds it
  keeps the old cells, and the new ones were never written.
\<close>

definition can_repalloc :: "int \<Rightarrow> int \<Rightarrow> bool" where
  "can_repalloc avail n \<longleftrightarrow> n < 2 ^ 27 \<and> n \<le> avail"

definition repalloc ::
  "int \<Rightarrow> pgssLocationLen option list \<Rightarrow> int \<Rightarrow> ErrorData + pgssLocationLen option list" where
  "repalloc avail buf n =
     (if \<not> n < 2 ^ 27 then Inl \<lparr>message = ''invalid memory alloc request size'', cursorpos = 0\<rparr>
      else if \<not> n \<le> avail then Inl \<lparr>message = ''out of memory'', cursorpos = 0\<rparr>
      else Inr (take (nat n) buf @ replicate (nat n - length buf) None))"

text \<open>
  The two assignments and the increment at the end of the
  \<^verbatim>\<open>if (IsA(node, A_Const) && ...)\<close> statement. A store outside the allocated cells is
  the failure \<open>Write_past_buffer\<close>.
\<close>

definition store_location :: "int \<Rightarrow> pgssConstLocations \<Rightarrow> failure + (unit pg_result \<times> pgssConstLocations)" where
  "store_location loc jstate =
     (let i = clocations_count jstate
      in if 0 \<le> i \<and> nat i < length (clocations jstate) then
           Inr (PG_return (),
                jstate\<lparr>clocations :=
                         (clocations jstate)[nat i := Some \<lparr>location = loc, length_bytes = -1\<rparr>],
                       clocations_count := i + 1\<rparr>)
         else Inl Write_past_buffer)"

text \<open>
  The body of that statement: enlarge the array if needed, then store. The source doubles
  \<^verbatim>\<open>clocations_buf_size\<close> first and calls \<^verbatim>\<open>repalloc\<close> second, so an error of
  \<^verbatim>\<open>repalloc\<close> leaves the capacity doubled and the array as it was.
\<close>

definition record_location ::
  "int \<Rightarrow> int \<Rightarrow> pgssConstLocations \<Rightarrow> failure + (unit pg_result \<times> pgssConstLocations)" where
  "record_location avail loc jstate =
     (if clocations_count jstate \<ge> clocations_buf_size jstate then
        let js = jstate\<lparr>clocations_buf_size := clocations_buf_size jstate * 2\<rparr> in
        (case repalloc avail (clocations js) (clocations_buf_size js) of
           Inl err \<Rightarrow> Inr (PG_error err, js)
         | Inr cells \<Rightarrow> store_location loc (js\<lparr>clocations := cells\<rparr>))
      else store_location loc jstate)"

text \<open>
  Modelled from the spec: \<^verbatim>\<open>raw_expression_tree_walker\<close> is a function of PostgreSQL
  and not part of the source file. As the spec describes the traversal, it calls the
  walker on every sub-node of the node in turn, stops with \<open>true\<close> as soon as one call
  returns \<open>true\<close>, returns \<open>false\<close> otherwise, and may fail on a node, with the error
  \<open>walker_error\<close>. It has no \<^verbatim>\<open>PG_TRY\<close> of its own, so an error that a call of the
  walker raises passes through it.

  \<^verbatim>\<open>const_record_walker\<close> is translated from the source: the append comes before
  \<^verbatim>\<open>PG_TRY\<close>, so its error leaves the function; \<^verbatim>\<open>PG_CATCH\<close> turns an error
  of \<^verbatim>\<open>raw_expression_tree_walker\<close> into the result \<open>false\<close>.
\<close>

definition walker_error :: ErrorData where
  "walker_error = \<lparr>message = ''unrecognized node type'', cursorpos = 0\<rparr>"

fun const_record_walker ::
    "int \<Rightarrow> node option \<Rightarrow> pgssConstLocations \<Rightarrow> failure + (bool pg_result \<times> pgssConstLocations)"
  and raw_expression_tree_walker ::
    "int \<Rightarrow> node \<Rightarrow> pgssConstLocations \<Rightarrow> failure + (bool pg_result \<times> pgssConstLocations)"
  and walk_subnodes ::
    "int \<Rightarrow> node option list \<Rightarrow> pgssConstLocations \<Rightarrow> failure + (bool pg_result \<times> pgssConstLocations)"
where
  "const_record_walker avail None jstate = Inr (PG_return False, jstate)"
| "const_record_walker avail (Some n) jstate =
     (case (case n of
              A_Const loc \<Rightarrow>
                if loc \<ge> 0 then record_location avail loc jstate else Inr (PG_return (), jstate)
            | _ \<Rightarrow> Inr (PG_return (), jstate)) of
        Inl f \<Rightarrow> Inl f
      | Inr (PG_error err, js) \<Rightarrow> Inr (PG_error err, js)
      | Inr (PG_return _, js) \<Rightarrow>
          (case raw_expression_tree_walker avail n js of
             Inl f \<Rightarrow> Inl f
           | Inr (PG_error err, js') \<Rightarrow> Inr (PG_return False, js')
           | Inr (PG_return result, js') \<Rightarrow> Inr (PG_return result, js')))"
| "raw_expression_tree_walker avail (A_Const loc) jstate = Inr (PG_return False, jstate)"
| "raw_expression_tree_walker avail (Faulty subs) jstate = Inr (PG_error walker_error, jstate)"
| "raw_expression_tree_walker avail (Interior subs) jstate = walk_subnodes avail subs jstate"
| "walk_subnodes avail [] jstate = Inr (PG_return False, jstate)"
| "walk_subnodes avail (n # ns) jstate =
     (case const_record_walker avail n jstate of
        Inl f \<Rightarrow> Inl f
      | Inr (PG_error err, js) \<Rightarrow> Inr (PG_error err, js)
      | Inr (PG_return r, js) \<Rightarrow>
          if r then Inr (PG_return True, js) else walk_subnodes avail ns js)"

section \<open>\<^verbatim>\<open>pg_query_normalize\<close>\<close>

text \<open>
  A Ruby object, as far as the method tells objects apart: a \<^verbatim>\<open>String\<close> with its
  bytes, or an object of another class.
\<close>

datatype VALUE = T_STRING string | T_FIXNUM int | T_NIL

text \<open>
  The Ruby exceptions that the method raises: \<^verbatim>\<open>PgQuery::ParseError\<close> with its two
  arguments, \<^verbatim>\<open>TypeError\<close> from \<^verbatim>\<open>Check_Type\<close>, and \<^verbatim>\<open>ArgumentError\<close> from
  \<^verbatim>\<open>StringValueCStr\<close>.
\<close>

datatype exception = ParseError string int | TypeError | ArgumentError

definition new_parse_error :: "ErrorData \<Rightarrow> exception" where
  "new_parse_error error = ParseError (message error) (cursorpos error)"

text \<open>What the Ruby method does: raise an exception or return a string.\<close>

datatype ruby_result = Raised exception | Returned string

text \<open>
  The two functions of PostgreSQL that the method calls are parameters: \<open>raw_parser\<close>
  returns the tree or raises the error; \<open>core_yylex\<close> is the sequence of tokens the
  scanner returns for the text. \<^verbatim>\<open>Check_Type(input, T_STRING)\<close> raises
  \<^verbatim>\<open>TypeError\<close> for an argument that is not a string, and \<^verbatim>\<open>StringValueCStr\<close>
  raises \<^verbatim>\<open>ArgumentError\<close> for a string that holds a zero byte, as the Ruby API
  documents them. The method allocates 32 cells for the records; this \<^verbatim>\<open>palloc\<close> and
  the one of the result buffer are taken to succeed. The scanner lexes the text that the
  parser has just accepted, by the same rules, and raises no error of its own. The call of
  \<^verbatim>\<open>const_record_walker\<close> stands inside \<^verbatim>\<open>PG_TRY\<close>, so \<^verbatim>\<open>PG_CATCH\<close> receives
  an error that leaves it as it receives the error of the parser.
\<close>

definition pg_query_normalize ::
  "int \<Rightarrow> (string \<Rightarrow> ErrorData + node option) \<Rightarrow> (string \<Rightarrow> token list) \<Rightarrow> VALUE
     \<Rightarrow> failure + ruby_result" where
  "pg_query_normalize avail raw_parser core_yylex input =
     (case input of
        T_STRING bytes \<Rightarrow>
          if NUL \<in> set bytes then Inr (Raised ArgumentError)
          else
            let str = bytes in
            (case raw_parser str of
               Inl error_data \<Rightarrow> Inr (Raised (new_parse_error error_data))
             | Inr tree \<Rightarrow>
                 let jstate = \<lparr>clocations = replicate 32 None,
                               clocations_buf_size = 32,
                               clocations_count = 0\<rparr>
                 in (case const_record_walker avail tree jstate of
                       Inl f \<Rightarrow> Inl f
                     | Inr (PG_error error_data, _) \<Rightarrow> Inr (Raised (new_parse_error error_data))
                     | Inr (PG_return _, js) \<Rightarrow>
                         (case generate_normalized_query (core_yylex str) js str (int (length str)) of
                            Inl f \<Rightarrow> Inl f
                          | Inr (norm, _) \<Rightarrow> Inr (Returned norm))))
      | _ \<Rightarrow> Inr (Raised TypeError))"

section \<open>Predicates and functions used in the statements\<close>

text \<open>
  The invariant of the working state of the walker: the array has
  \<open>clocations_buf_size\<close> cells, at least one; \<open>clocations_count\<close> does not exceed the
  capacity; and the first \<open>clocations_count\<close> cells have been written.
\<close>

definition jstate_ok :: "pgssConstLocations \<Rightarrow> bool" where
  "jstate_ok jstate \<longleftrightarrow>
     0 < clocations_buf_size jstate \<and>
     0 \<le> clocations_count jstate \<and>
     clocations_count jstate \<le> clocations_buf_size jstate \<and>
     length (clocations jstate) = nat (clocations_buf_size jstate) \<and>
     list_all (\<lambda>c. c \<noteq> None) (take (nat (clocations_count jstate)) (clocations jstate))"

text \<open>The record the walker stores for a constant at \<open>loc\<close>.\<close>

definition fresh_span :: "int \<Rightarrow> pgssLocationLen" where
  "fresh_span loc = \<lparr>location = loc, length_bytes = -1\<rparr>"

text \<open>
  The collector as the spec words it: the locations of the constants with a known location
  (\<open>location \<ge> 0\<close>), in the order of the walk; a sub-tree whose visit fails contributes
  nothing.
\<close>

fun recorded :: "node option \<Rightarrow> int list"
  and recorded_node :: "node \<Rightarrow> int list"
  and recorded_list :: "node option list \<Rightarrow> int list"
where
  "recorded None = []"
| "recorded (Some n) = recorded_node n"
| "recorded_node (A_Const loc) = (if loc \<ge> 0 then [loc] else [])"
| "recorded_node (Interior subs) = recorded_list subs"
| "recorded_node (Faulty subs) = []"
| "recorded_list [] = []"
| "recorded_list (n # ns) = recorded n @ recorded_list ns"

text \<open>
  What the scanner guarantees about its tokens: each is at least one byte long and lies
  within the text, and they come in ascending order without overlap. \<open>lo\<close> is the end of
  the token before, \<open>hi\<close> the length of the text.
\<close>

fun tokens_ok :: "int \<Rightarrow> int \<Rightarrow> token list \<Rightarrow> bool" where
  "tokens_ok lo hi [] = True"
| "tokens_ok lo hi (t # ts) =
     (lo \<le> yylloc t \<and> yylloc t < yyend t \<and> yyend t \<le> hi \<and> tokens_ok (yyend t) hi ts)"

text \<open>A C string holds no zero byte before its terminator.\<close>

definition valid_scan :: "string \<Rightarrow> token list \<Rightarrow> bool" where
  "valid_scan query toks \<longleftrightarrow> NUL \<notin> set query \<and> tokens_ok 0 (int (length query)) toks"

text \<open>Records as the walker leaves them: a location that is not negative, length \<open>-1\<close>.\<close>

definition fresh :: "pgssLocationLen list \<Rightarrow> bool" where
  "fresh ss \<longleftrightarrow> list_all (\<lambda>s. 0 \<le> location s \<and> length_bytes s = -1) ss"

text \<open>The records that the rewriter replaces by a placeholder.\<close>

definition replaced :: "pgssLocationLen list \<Rightarrow> pgssLocationLen list" where
  "replaced ss = filter (\<lambda>s. length_bytes s \<ge> 0) ss"

text \<open>
  The replaced spans do not overlap: each starts at or behind \<open>e\<close>, the end of the one
  before.
\<close>

fun non_overlapping :: "int \<Rightarrow> pgssLocationLen list \<Rightarrow> bool" where
  "non_overlapping e [] = True"
| "non_overlapping e (s # ss) =
     (if length_bytes s < 0 then non_overlapping e ss
      else e \<le> location s \<and> non_overlapping (location s + length_bytes s) ss)"

text \<open>
  The relation between the local variables of \<^verbatim>\<open>generate_normalized_query\<close> that
  every round of its loop keeps.
\<close>

definition rewrite_inv :: "rewrite_state \<Rightarrow> bool" where
  "rewrite_inv st \<longleftrightarrow> quer_loc st = last_off st + last_tok_len st \<and> 0 \<le> quer_loc st"

definition tok :: "int \<Rightarrow> int \<Rightarrow> token" where
  "tok b e = \<lparr>yylloc = b, yyend = e\<rparr>"

text \<open>A working state that holds exactly the given records.\<close>

definition jstate_of :: "pgssLocationLen list \<Rightarrow> pgssConstLocations" where
  "jstate_of ss =
     \<lparr>clocations = map Some ss,
      clocations_buf_size = int (length ss),
      clocations_count = int (length ss)\<rparr>"

text \<open>
  The duty that the comment of \<^verbatim>\<open>fill_in_constant_lengths\<close> puts on the caller: the
  text has constants at the recorded locations. Every location is the start of a token; and
  where the byte at a location is \<open>-\<close>, the token behind the sign, which the resolver
  merges into the span, is not a recorded location of its own.
\<close>

fun minus_ok :: "string \<Rightarrow> int list \<Rightarrow> token list \<Rightarrow> bool" where
  "minus_ok query locs (t # t2 # ts) =
     ((yylloc t \<in> set locs \<and> query_at query (yylloc t) = CHR ''-'' \<longrightarrow> yylloc t2 \<notin> set locs) \<and>
      minus_ok query locs (t2 # ts))"
| "minus_ok query locs ts = True"

definition constants_at :: "string \<Rightarrow> token list \<Rightarrow> pgssLocationLen list \<Rightarrow> bool" where
  "constants_at query toks ss \<longleftrightarrow>
     list_all (\<lambda>s. location s \<in> yylloc ` set toks) ss \<and> minus_ok query (map location ss) toks"

text \<open>
  The allocator serves every request that \<open>k\<close> appends make, starting from
  \<open>count\<close> records: the largest request doubles a capacity of \<open>count + k - 1\<close>.
\<close>

definition appends_succeed :: "int \<Rightarrow> int \<Rightarrow> nat \<Rightarrow> bool" where
  "appends_succeed avail count k \<longleftrightarrow> k = 0 \<or> can_repalloc avail (2 * (count + int k - 1))"

text \<open>
  What every run of the walk keeps, whatever the allocator does, as long as no store
  leaves the array: the records lie within the array and within the capacity, the cells
  below \<open>clocations_count\<close> have been written, and the records are as the walker
  writes them.
\<close>

definition jstate_sane :: "pgssConstLocations \<Rightarrow> bool" where
  "jstate_sane jstate \<longleftrightarrow>
     0 < clocations_buf_size jstate \<and>
     0 \<le> clocations_count jstate \<and>
     clocations_count jstate \<le> clocations_buf_size jstate \<and>
     nat (clocations_count jstate) \<le> length (clocations jstate) \<and>
     length (clocations jstate) \<le> nat (clocations_buf_size jstate) \<and>
     list_all (\<lambda>c. c \<noteq> None) (take (nat (clocations_count jstate)) (clocations jstate)) \<and>
     fresh (entries jstate)"

section \<open>The collector\<close>

lemma entries_snoc:
  assumes "0 \<le> clocations_count js" "nat (clocations_count js) < length (clocations js)"
  shows "entries (js\<lparr>clocations := (clocations js)[nat (clocations_count js) := Some x],
                    clocations_count := clocations_count js + 1\<rparr>) = entries js @ [x]"
proof -
  let ?n = "nat (clocations_count js)"
  have "nat (clocations_count js + 1) = Suc ?n" using assms by simp
  then show ?thesis using assms
    by (simp add: entries_def take_Suc_conv_app_nth)
qed

lemma length_entries: "jstate_ok js \<Longrightarrow> int (length (entries js)) = clocations_count js"
  by (auto simp: jstate_ok_def entries_def min_def)

lemma can_repalloc_mono: "can_repalloc avail n \<Longrightarrow> m \<le> n \<Longrightarrow> can_repalloc avail m"
  by (simp add: can_repalloc_def)

lemma repalloc_succeeds:
  "can_repalloc avail n \<Longrightarrow>
     repalloc avail buf n = Inr (take (nat n) buf @ replicate (nat n - length buf) None)"
  by (simp add: repalloc_def can_repalloc_def)

lemma repalloc_fails:
  "\<not> can_repalloc avail n \<Longrightarrow> \<exists>err. repalloc avail buf n = Inl err"
  by (auto simp: repalloc_def can_repalloc_def)

text \<open>An append that the allocator serves.\<close>

lemma record_location_ok:
  assumes "jstate_ok js" and "can_repalloc avail (2 * clocations_count js)"
  shows "\<exists>js'. record_location avail loc js = Inr (PG_return (), js') \<and> jstate_ok js' \<and>
           entries js' = entries js @ [fresh_span loc] \<and>
           clocations js' ! nat (clocations_count js) = Some (fresh_span loc) \<and>
           clocations_count js' = clocations_count js + 1 \<and>
           clocations_buf_size js' =
             (if clocations_count js \<ge> clocations_buf_size js
              then clocations_buf_size js * 2 else clocations_buf_size js)"
proof (cases "clocations_count js \<ge> clocations_buf_size js")
  case True
  from assms True have eq: "clocations_count js = clocations_buf_size js"
    and pos: "0 < clocations_buf_size js"
    and len: "length (clocations js) = nat (clocations_buf_size js)"
    and full: "list_all (\<lambda>c. c \<noteq> None) (take (nat (clocations_count js)) (clocations js))"
    by (auto simp: jstate_ok_def)
  let ?cells = "clocations js @ replicate (nat (clocations_buf_size js)) None"
  let ?js1 = "js\<lparr>clocations_buf_size := clocations_buf_size js * 2, clocations := ?cells\<rparr>"
  from assms(2) eq have "can_repalloc avail (clocations_buf_size js * 2)"
    by (simp add: mult.commute)
  from repalloc_succeeds[OF this, of "clocations js"] len pos
  have rep: "repalloc avail (clocations js) (clocations_buf_size js * 2) = Inr ?cells"
    by (simp add: nat_mult_distrib)
  have lt: "nat (clocations_count ?js1) < length (clocations ?js1)"
    using len eq pos by simp
  have ent1: "entries ?js1 = entries js"
    using len eq by (simp add: entries_def)
  let ?js' = "?js1\<lparr>clocations := (clocations ?js1)[nat (clocations_count ?js1) := Some (fresh_span loc)],
                    clocations_count := clocations_count ?js1 + 1\<rparr>"
  have r: "record_location avail loc js = Inr (PG_return (), ?js')"
    using True rep lt pos eq
    by (simp add: record_location_def store_location_def Let_def fresh_span_def)
  have e: "entries ?js' = entries js @ [fresh_span loc]"
    using entries_snoc[of ?js1 "fresh_span loc"] lt pos eq ent1 by simp
  have ok: "jstate_ok ?js'"
    using pos eq len full
    by (simp add: jstate_ok_def nat_mult_distrib nat_add_distrib take_Suc_conv_app_nth list_update_append)
  have c: "clocations ?js' ! nat (clocations_count js) = Some (fresh_span loc)"
    using lt by simp
  show ?thesis using r e ok c True by simp
next
  case False
  from assms False have lt0: "clocations_count js < clocations_buf_size js"
    and pos: "0 < clocations_buf_size js" and nn: "0 \<le> clocations_count js"
    and len: "length (clocations js) = nat (clocations_buf_size js)"
    and full: "list_all (\<lambda>c. c \<noteq> None) (take (nat (clocations_count js)) (clocations js))"
    by (auto simp: jstate_ok_def)
  have lt: "nat (clocations_count js) < length (clocations js)"
    using lt0 nn len by simp
  let ?js' = "js\<lparr>clocations := (clocations js)[nat (clocations_count js) := Some (fresh_span loc)],
                    clocations_count := clocations_count js + 1\<rparr>"
  have r: "record_location avail loc js = Inr (PG_return (), ?js')"
    using False lt nn by (simp add: record_location_def store_location_def Let_def fresh_span_def)
  have e: "entries ?js' = entries js @ [fresh_span loc]"
    using entries_snoc[of js "fresh_span loc"] lt nn by simp
  have "nat (clocations_count js + 1) = Suc (nat (clocations_count js))" using nn by simp
  then have ok: "jstate_ok ?js'"
    using pos lt0 nn len full lt
    by (simp add: jstate_ok_def take_Suc_conv_app_nth)
  have c: "clocations ?js' ! nat (clocations_count js) = Some (fresh_span loc)"
    using lt by simp
  show ?thesis using r e ok c False by simp
qed

text \<open>
  An append that the allocator refuses: the error leaves the capacity doubled and the
  array as it was.
\<close>

lemma record_location_refused:
  assumes "clocations_count js \<ge> clocations_buf_size js"
    and "\<not> can_repalloc avail (clocations_buf_size js * 2)"
  shows "\<exists>err. record_location avail loc js =
           Inr (PG_error err, js\<lparr>clocations_buf_size := clocations_buf_size js * 2\<rparr>)"
  using assms repalloc_fails[OF assms(2), of "clocations js"]
  by (auto simp: record_location_def Let_def)

text \<open>An append raises only when it has to enlarge the array.\<close>

lemma record_location_no_error:
  "clocations_count js < clocations_buf_size js \<Longrightarrow>
     record_location avail loc js \<noteq> Inr (PG_error err, js')"
  by (simp add: record_location_def store_location_def Let_def)

lemma const_record_walker_no_error:
  assumes "clocations_count js < clocations_buf_size js"
  shows "const_record_walker avail p js \<noteq> Inr (PG_error err, js')"
proof (cases p)
  case None
  then show ?thesis by simp
next
  case (Some n)
  show ?thesis
  proof (cases n)
    case (A_Const loc)
    with Some record_location_no_error[OF assms, of avail loc] show ?thesis
      by (auto simp: split: sum.splits pg_result.splits prod.splits)
  next
    case (Interior subs)
    with Some show ?thesis by (auto split: sum.splits pg_result.splits prod.splits)
  next
    case (Faulty subs)
    with Some show ?thesis by simp
  qed
qed

lemma appends_succeed_split:
  assumes "appends_succeed avail c (k1 + k2)"
  shows "appends_succeed avail c k1" and "appends_succeed avail (c + int k1) k2"
  using assms by (auto simp: appends_succeed_def can_repalloc_def)

lemma appends_succeed_one:
  "appends_succeed avail c (Suc 0) \<Longrightarrow> can_repalloc avail (2 * c)"
  by (simp add: appends_succeed_def)

lemma walker_collects:
  "jstate_ok js \<and> appends_succeed avail (clocations_count js) (length (recorded p)) \<longrightarrow>
     (\<exists>js'. const_record_walker avail p js = Inr (PG_return False, js') \<and> jstate_ok js' \<and>
        entries js' = entries js @ map fresh_span (recorded p))"
  "jstate_ok js \<and>
   appends_succeed avail (clocations_count js)
     (length (case n of Interior subs \<Rightarrow> recorded_list subs | _ \<Rightarrow> [])) \<longrightarrow>
     (\<exists>r js'. raw_expression_tree_walker avail n js = Inr (r, js') \<and> r \<noteq> PG_return True \<and>
        jstate_ok js' \<and>
        entries js' = entries js @
          map fresh_span (case n of Interior subs \<Rightarrow> recorded_list subs | _ \<Rightarrow> []))"
  "jstate_ok js \<and> appends_succeed avail (clocations_count js) (length (recorded_list ps)) \<longrightarrow>
     (\<exists>js'. walk_subnodes avail ps js = Inr (PG_return False, js') \<and> jstate_ok js' \<and>
        entries js' = entries js @ map fresh_span (recorded_list ps))"
proof (induction avail p js and avail n js and avail ps js
       rule: const_record_walker_raw_expression_tree_walker_walk_subnodes.induct)
  case (1 avail jstate)
  show ?case by simp
next
  case (2 avail n jstate)
  show ?case
  proof
    assume h: "jstate_ok jstate \<and>
      appends_succeed avail (clocations_count jstate) (length (recorded (Some n)))"
    then have ok: "jstate_ok jstate" by simp
    let ?own = "case n of A_Const loc \<Rightarrow> if loc \<ge> 0 then [loc] else [] | _ \<Rightarrow> []"
    let ?below = "case n of Interior subs \<Rightarrow> recorded_list subs | _ \<Rightarrow> []"
    let ?pre = "case n of
                  A_Const loc \<Rightarrow>
                    if loc \<ge> 0 then record_location avail loc jstate else Inr (PG_return (), jstate)
                | _ \<Rightarrow> Inr (PG_return (), jstate)"
    have split: "recorded (Some n) = ?own @ ?below" by (cases n) simp_all
    with h have a1: "appends_succeed avail (clocations_count jstate) (length ?own)"
      and a2: "appends_succeed avail (clocations_count jstate + int (length ?own)) (length ?below)"
      using appends_succeed_split[of avail "clocations_count jstate" "length ?own" "length ?below"]
      by simp_all
    have "\<exists>js1. ?pre = Inr (PG_return (), js1) \<and> jstate_ok js1 \<and>
            entries js1 = entries jstate @ map fresh_span ?own"
    proof (cases n)
      case (A_Const loc)
      show ?thesis
      proof (cases "loc \<ge> 0")
        case True
        with a1 A_Const have "can_repalloc avail (2 * clocations_count jstate)"
          by (simp add: appends_succeed_one)
        from record_location_ok[OF ok this, of loc] A_Const True show ?thesis by auto
      next
        case False
        with A_Const ok show ?thesis by simp
      qed
    next
      case (Interior subs)
      with ok show ?thesis by simp
    next
      case (Faulty subs)
      with ok show ?thesis by simp
    qed
    then obtain js1 where pre: "?pre = Inr (PG_return (), js1)" and ok1: "jstate_ok js1"
      and e1: "entries js1 = entries jstate @ map fresh_span ?own"
      by blast
    from e1 length_entries[OF ok] length_entries[OF ok1]
    have c1: "clocations_count js1 = clocations_count jstate + int (length ?own)"
      by simp
    from "2.IH"[OF pre, of "PG_return ()" js1 "()"] ok1 a2 c1 obtain r js2 where
      raw: "raw_expression_tree_walker avail n js1 = Inr (r, js2)" and r: "r \<noteq> PG_return True"
      and ok2: "jstate_ok js2"
      and e2: "entries js2 = entries js1 @ map fresh_span ?below"
      by auto
    have res: "const_record_walker avail (Some n) jstate = Inr (PG_return False, js2)"
    proof (cases r)
      case (PG_error err)
      with pre raw show ?thesis by simp
    next
      case (PG_return b)
      with r have "b = False" by simp
      with PG_return pre raw show ?thesis by simp
    qed
    have "entries js2 = entries jstate @ map fresh_span (recorded (Some n))"
      using e1 e2 split by simp
    with res ok2 show "\<exists>js'. const_record_walker avail (Some n) jstate = Inr (PG_return False, js') \<and>
        jstate_ok js' \<and> entries js' = entries jstate @ map fresh_span (recorded (Some n))"
      by blast
  qed
next
  case (3 avail loc jstate)
  show ?case by simp
next
  case (4 avail subs jstate)
  show ?case by simp
next
  case (5 avail subs jstate)
  then show ?case by auto
next
  case (6 avail jstate)
  show ?case by simp
next
  case (7 avail n ns jstate)
  show ?case
  proof
    assume h: "jstate_ok jstate \<and>
      appends_succeed avail (clocations_count jstate) (length (recorded_list (n # ns)))"
    then have ok: "jstate_ok jstate" by simp
    from h have a1: "appends_succeed avail (clocations_count jstate) (length (recorded n))"
      and a2: "appends_succeed avail (clocations_count jstate + int (length (recorded n)))
                 (length (recorded_list ns))"
      using appends_succeed_split[of avail "clocations_count jstate" "length (recorded n)"
              "length (recorded_list ns)"]
      by simp_all
    from "7.IH"(1) ok a1 obtain js1 where
      w: "const_record_walker avail n jstate = Inr (PG_return False, js1)" and ok1: "jstate_ok js1"
      and e1: "entries js1 = entries jstate @ map fresh_span (recorded n)"
      by blast
    from e1 length_entries[OF ok] length_entries[OF ok1]
    have c1: "clocations_count js1 = clocations_count jstate + int (length (recorded n))"
      by simp
    from "7.IH"(2)[OF w, of "PG_return False" js1 False] ok1 a2 c1 obtain js2 where
      w2: "walk_subnodes avail ns js1 = Inr (PG_return False, js2)" and ok2: "jstate_ok js2"
      and e2: "entries js2 = entries js1 @ map fresh_span (recorded_list ns)"
      by auto
    have "walk_subnodes avail (n # ns) jstate = Inr (PG_return False, js2)" using w w2 by simp
    moreover have "entries js2 = entries jstate @ map fresh_span (recorded_list (n # ns))"
      using e1 e2 by simp
    ultimately show "\<exists>js'. walk_subnodes avail (n # ns) jstate = Inr (PG_return False, js') \<and>
        jstate_ok js' \<and> entries js' = entries jstate @ map fresh_span (recorded_list (n # ns))"
      using ok2 by blast
  qed
qed

lemma jstate_ok_sane: "jstate_ok js \<Longrightarrow> fresh (entries js) \<Longrightarrow> jstate_sane js"
  by (auto simp: jstate_ok_def jstate_sane_def)

lemma fresh_snoc: "fresh ss \<Longrightarrow> 0 \<le> loc \<Longrightarrow> fresh (ss @ [fresh_span loc])"
  by (simp add: fresh_def fresh_span_def)

lemma store_location_sane:
  assumes "store_location loc js = Inr (r, js')" and "jstate_sane js" and "0 \<le> loc"
    and "clocations_count js < clocations_buf_size js"
  shows "jstate_sane js'"
proof -
  from assms(1) have lt: "nat (clocations_count js) < length (clocations js)"
    and nn: "0 \<le> clocations_count js"
    and js': "js' = js\<lparr>clocations := (clocations js)[nat (clocations_count js) := Some (fresh_span loc)],
                    clocations_count := clocations_count js + 1\<rparr>"
    by (auto simp: store_location_def Let_def fresh_span_def split: if_splits)
  have e: "entries js' = entries js @ [fresh_span loc]"
    unfolding js' using entries_snoc[OF nn lt] .
  have s: "nat (clocations_count js + 1) = Suc (nat (clocations_count js))" using nn by simp
  from assms(2,4) lt nn s fresh_snoc[of "entries js" loc] assms(3) e show ?thesis
    unfolding jstate_sane_def js'
    by (simp add: take_Suc_conv_app_nth)
qed

lemma record_location_sane:
  assumes "record_location avail loc js = Inr (r, js')" and "jstate_sane js" and "0 \<le> loc"
  shows "jstate_sane js'"
proof (cases "clocations_count js \<ge> clocations_buf_size js")
  case False
  with assms(1) have "store_location loc js = Inr (r, js')"
    by (simp add: record_location_def)
  from store_location_sane[OF this assms(2,3)] False show ?thesis by simp
next
  case True
  with assms(2) have eq: "clocations_count js = clocations_buf_size js"
    and pos: "0 < clocations_buf_size js"
    and len: "length (clocations js) = nat (clocations_buf_size js)"
    by (auto simp: jstate_sane_def)
  let ?js1 = "js\<lparr>clocations_buf_size := clocations_buf_size js * 2\<rparr>"
  show ?thesis
  proof (cases "repalloc avail (clocations js) (clocations_buf_size js * 2)")
    case (Inl err)
    with assms(1) True have "js' = ?js1"
      by (simp add: record_location_def Let_def)
    with assms(2) pos show ?thesis by (auto simp: jstate_sane_def entries_def)
  next
    case (Inr cells)
    then have cells: "cells = clocations js @ replicate (nat (clocations_buf_size js)) None"
      using len pos by (simp add: repalloc_def nat_mult_distrib split: if_splits)
    let ?js2 = "?js1\<lparr>clocations := cells\<rparr>"
    from Inr assms(1) True have st: "store_location loc ?js2 = Inr (r, js')"
      by (simp add: record_location_def Let_def)
    have "jstate_sane ?js2"
      using assms(2) pos eq len cells
      by (simp add: jstate_sane_def entries_def nat_mult_distrib)
    from store_location_sane[OF st this assms(3)] pos eq show ?thesis by simp
  qed
qed

text \<open>
  Whatever the allocator does, a walk that ends without a store outside the array leaves
  records as the walker writes them.
\<close>

lemma walker_sane:
  "jstate_sane js \<longrightarrow> (\<forall>r js'. const_record_walker avail p js = Inr (r, js') \<longrightarrow> jstate_sane js')"
  "jstate_sane js \<longrightarrow> (\<forall>r js'. raw_expression_tree_walker avail n js = Inr (r, js') \<longrightarrow> jstate_sane js')"
  "jstate_sane js \<longrightarrow> (\<forall>r js'. walk_subnodes avail ps js = Inr (r, js') \<longrightarrow> jstate_sane js')"
proof (induction avail p js and avail n js and avail ps js
       rule: const_record_walker_raw_expression_tree_walker_walk_subnodes.induct)
  case (1 avail jstate)
  show ?case by simp
next
  case (2 avail n jstate)
  show ?case
  proof (intro impI allI)
    fix r js'
    assume sane: "jstate_sane jstate"
      and run: "const_record_walker avail (Some n) jstate = Inr (r, js')"
    let ?pre = "case n of
                  A_Const loc \<Rightarrow>
                    if loc \<ge> 0 then record_location avail loc jstate else Inr (PG_return (), jstate)
                | _ \<Rightarrow> Inr (PG_return (), jstate)"
    from run obtain u js1 where pre: "?pre = Inr (u, js1)"
      by (cases ?pre) (auto split: sum.splits)
    have sane1: "jstate_sane js1"
    proof (cases n)
      case (A_Const loc)
      show ?thesis
      proof (cases "loc \<ge> 0")
        case True
        with pre A_Const have "record_location avail loc jstate = Inr (u, js1)" by simp
        from record_location_sane[OF this sane True] show ?thesis .
      next
        case False
        with pre A_Const sane show ?thesis by simp
      qed
    next
      case (Interior subs)
      with pre sane show ?thesis by simp
    next
      case (Faulty subs)
      with pre sane show ?thesis by simp
    qed
    show "jstate_sane js'"
    proof (cases u)
      case (PG_error err)
      with pre run sane1 show ?thesis by simp
    next
      case (PG_return x)
      with pre run obtain r2 where raw: "raw_expression_tree_walker avail n js1 = Inr (r2, js')"
        by (auto split: sum.splits pg_result.splits prod.splits)
      from "2.IH"[OF pre, of u js1 x] PG_return sane1 raw show ?thesis by simp
    qed
  qed
next
  case (3 avail loc jstate)
  show ?case by simp
next
  case (4 avail subs jstate)
  show ?case by simp
next
  case (5 avail subs jstate)
  then show ?case by simp
next
  case (6 avail jstate)
  show ?case by simp
next
  case (7 avail n ns jstate)
  show ?case
  proof (intro impI allI)
    fix r js'
    assume sane: "jstate_sane jstate"
      and run: "walk_subnodes avail (n # ns) jstate = Inr (r, js')"
    from run obtain r1 js1 where w: "const_record_walker avail n jstate = Inr (r1, js1)"
      by (cases "const_record_walker avail n jstate") auto
    from "7.IH"(1) sane w have sane1: "jstate_sane js1" by blast
    show "jstate_sane js'"
    proof (cases r1)
      case (PG_error err)
      with w run sane1 show ?thesis by simp
    next
      case (PG_return b)
      show ?thesis
      proof (cases b)
        case True
        with PG_return w run sane1 show ?thesis by simp
      next
        case False
        with PG_return w run have "walk_subnodes avail ns js1 = Inr (r, js')" by simp
        with "7.IH"(2)[OF w, of r1 js1 b] PG_return False sane1 show ?thesis by simp
      qed
    qed
  qed
qed

lemma jstate_ok_initial:
  "jstate_ok \<lparr>clocations = replicate 32 None, clocations_buf_size = 32, clocations_count = 0\<rparr>"
  by (simp add: jstate_ok_def)

lemma entries_initial:
  "entries \<lparr>clocations = replicate 32 None, clocations_buf_size = 32, clocations_count = 0\<rparr> = []"
  by (simp add: entries_def)

lemma jstate_sane_initial:
  "jstate_sane \<lparr>clocations = replicate 32 None, clocations_buf_size = 32, clocations_count = 0\<rparr>"
  by (simp add: jstate_sane_def entries_def fresh_def)

lemma recorded_list_append: "recorded_list (xs @ ys) = recorded_list xs @ recorded_list ys"
  by (induction xs) simp_all

text \<open>
  C8: a failure while \<^verbatim>\<open>raw_expression_tree_walker\<close> visits a node is absorbed by
  \<^verbatim>\<open>const_record_walker\<close>: the call on the failing node returns \<open>false\<close> and stores
  nothing from below that node; the walk over the siblings goes on as if the failing node
  were not there; and, when the allocator serves the appends, the whole walk returns
  \<open>false\<close> having stored the constants of all other sub-trees.
\<close>

theorem walker_absorbs_subtree_failure:
  "const_record_walker avail (Some (Faulty subs)) jstate = Inr (PG_return False, jstate) \<and>
   walk_subnodes avail (Some (Faulty subs) # siblings) jstate =
     walk_subnodes avail siblings jstate \<and>
   recorded_list (before @ Some (Faulty subs) # siblings) =
     recorded_list before @ recorded_list siblings \<and>
   (jstate_ok jstate \<and>
    appends_succeed avail (clocations_count jstate) (length (recorded tree)) \<longrightarrow>
      (\<exists>js'. const_record_walker avail tree jstate = Inr (PG_return False, js') \<and>
         entries js' = entries jstate @ map fresh_span (recorded tree)))"
proof -
  have "const_record_walker avail (Some (Faulty subs)) jstate = Inr (PG_return False, jstate)"
    by simp
  moreover from this
  have "walk_subnodes avail (Some (Faulty subs) # siblings) jstate =
          walk_subnodes avail siblings jstate"
    by simp
  moreover have "recorded_list (before @ Some (Faulty subs) # siblings) =
     recorded_list before @ recorded_list siblings"
    by (simp add: recorded_list_append)
  moreover have "jstate_ok jstate \<and>
    appends_succeed avail (clocations_count jstate) (length (recorded tree)) \<longrightarrow>
      (\<exists>js'. const_record_walker avail tree jstate = Inr (PG_return False, js') \<and>
         entries js' = entries jstate @ map fresh_span (recorded tree))"
    using walker_collects(1)[of jstate avail tree] by blast
  ultimately show ?thesis by blast
qed

theorem walker_absorbs_subtree_failure_witness:
  "jstate_ok (jstate_of [fresh_span 3]) \<and>
   appends_succeed 100 (clocations_count (jstate_of [fresh_span 3])) 2 \<and>
   const_record_walker 100
     (Some (Interior [Some (A_Const 7), Some (Faulty [Some (A_Const 9)]), None, Some (A_Const 12)]))
     (jstate_of [fresh_span 3]) =
   Inr (PG_return False,
        \<lparr>clocations = [Some (fresh_span 3), Some (fresh_span 7), Some (fresh_span 12), None],
         clocations_buf_size = 4, clocations_count = 3\<rparr>) \<and>
   entries \<lparr>clocations = [Some (fresh_span 3), Some (fresh_span 7), Some (fresh_span 12), None],
         clocations_buf_size = 4, clocations_count = 3\<rparr> =
     entries (jstate_of [fresh_span 3]) @ map fresh_span [7, 12]"
proof -
  have ok: "jstate_ok (jstate_of [fresh_span 3])"
    by (simp add: jstate_ok_def jstate_of_def)
  have al: "appends_succeed 100 (clocations_count (jstate_of [fresh_span 3])) 2"
    by (simp add: appends_succeed_def can_repalloc_def jstate_of_def)
  have run: "const_record_walker 100
     (Some (Interior [Some (A_Const 7), Some (Faulty [Some (A_Const 9)]), None, Some (A_Const 12)]))
     (jstate_of [fresh_span 3]) =
   Inr (PG_return False,
        \<lparr>clocations = [Some (fresh_span 3), Some (fresh_span 7), Some (fresh_span 12), None],
         clocations_buf_size = 4, clocations_count = 3\<rparr>)"
    by (simp add: jstate_of_def record_location_def store_location_def repalloc_def
          fresh_span_def eval_nat_numeral)
  have ent: "entries \<lparr>clocations = [Some (fresh_span 3), Some (fresh_span 7), Some (fresh_span 12), None],
         clocations_buf_size = 4, clocations_count = 3\<rparr> =
     entries (jstate_of [fresh_span 3]) @ map fresh_span [7, 12]"
    by (simp add: entries_def jstate_of_def eval_nat_numeral)
  show ?thesis
    using ok al run ent
      walker_absorbs_subtree_failure[of 100 "[Some (A_Const 9)]" "jstate_of [fresh_span 3]" "[]" "[]"
        "Some (Interior [Some (A_Const 7), Some (Faulty [Some (A_Const 9)]), None, Some (A_Const 12)])"]
    by blast
qed

text \<open>
  C9 fails on the code. When the array is full, the source doubles
  \<^verbatim>\<open>clocations_buf_size\<close> and then calls \<^verbatim>\<open>repalloc\<close>. When \<^verbatim>\<open>repalloc\<close>
  raises, the \<^verbatim>\<open>PG_CATCH\<close> of the enclosing call of \<^verbatim>\<open>const_record_walker\<close>
  absorbs the error, and the walk goes on with the capacity doubled and the array as it
  was: the state no longer satisfies the invariant, and the append for the next constant
  finds \<open>clocations_count\<close> below the capacity and stores behind the array.
\<close>

theorem refused_repalloc_then_store_past_array:
  assumes "jstate_ok jstate"
    and "clocations_count jstate = clocations_buf_size jstate"
    and "\<not> can_repalloc avail (clocations_buf_size jstate * 2)"
    and "0 \<le> a" and "0 \<le> b"
  shows "const_record_walker avail (Some (Interior [Some (A_Const a)])) jstate =
           Inr (PG_return False,
                jstate\<lparr>clocations_buf_size := clocations_buf_size jstate * 2\<rparr>) \<and>
         \<not> jstate_ok (jstate\<lparr>clocations_buf_size := clocations_buf_size jstate * 2\<rparr>) \<and>
         record_location avail b
           (jstate\<lparr>clocations_buf_size := clocations_buf_size jstate * 2\<rparr>) =
           Inl Write_past_buffer \<and>
         walk_subnodes avail [Some (Interior [Some (A_Const a)]), Some (A_Const b)] jstate =
           Inl Write_past_buffer"
proof -
  let ?js = "jstate\<lparr>clocations_buf_size := clocations_buf_size jstate * 2\<rparr>"
  from assms(1,2) have pos: "0 < clocations_buf_size jstate"
    and len: "length (clocations jstate) = nat (clocations_count jstate)"
    by (simp_all add: jstate_ok_def)
  from record_location_refused[of jstate avail a] assms(2,3) obtain err where
    r: "record_location avail a jstate = Inr (PG_error err, ?js)" by auto
  from r assms(4)
  have w: "const_record_walker avail (Some (Interior [Some (A_Const a)])) jstate =
             Inr (PG_return False, ?js)"
    by simp
  have bad: "\<not> jstate_ok ?js"
    using pos assms(1) by (auto simp: jstate_ok_def)
  have past: "record_location avail b ?js = Inl Write_past_buffer"
    using pos assms(2) len by (simp add: record_location_def store_location_def Let_def)
  with w assms(5)
  have "walk_subnodes avail [Some (Interior [Some (A_Const a)]), Some (A_Const b)] jstate =
           Inl Write_past_buffer"
    by simp
  with w bad past show ?thesis by simp
qed

theorem refused_repalloc_then_store_past_array_witness:
  "jstate_ok \<lparr>clocations = replicate (2 ^ 26) (Some (fresh_span 1)),
              clocations_buf_size = 2 ^ 26, clocations_count = 2 ^ 26\<rparr> \<and>
   \<not> can_repalloc (2 ^ 30) (2 ^ 26 * 2) \<and>
   walk_subnodes (2 ^ 30) [Some (Interior [Some (A_Const 7)]), Some (A_Const 9)]
     \<lparr>clocations = replicate (2 ^ 26) (Some (fresh_span 1)),
      clocations_buf_size = 2 ^ 26, clocations_count = 2 ^ 26\<rparr> = Inl Write_past_buffer \<and>
   const_record_walker 63
     (Some (Interior [Some (Interior (replicate 33 (Some (A_Const 1)))), Some (A_Const 9)]))
     \<lparr>clocations = replicate 32 None, clocations_buf_size = 32, clocations_count = 0\<rparr> =
     Inl Write_past_buffer"
proof -
  let ?J = "\<lparr>clocations = replicate (2 ^ 26) (Some (fresh_span 1)),
              clocations_buf_size = 2 ^ 26, clocations_count = 2 ^ 26\<rparr>"
  have ok: "jstate_ok ?J"
    by (simp add: jstate_ok_def list_all_iff)
  have eq: "clocations_count ?J = clocations_buf_size ?J" by simp
  have no: "\<not> can_repalloc (2 ^ 30) (clocations_buf_size ?J * 2)"
    by (simp add: can_repalloc_def)
  have small: "const_record_walker 63
     (Some (Interior [Some (Interior (replicate 33 (Some (A_Const 1)))), Some (A_Const 9)]))
     \<lparr>clocations = replicate 32 None, clocations_buf_size = 32, clocations_count = 0\<rparr> =
     Inl Write_past_buffer"
    by (simp add: record_location_def store_location_def repalloc_def eval_nat_numeral)
  from refused_repalloc_then_store_past_array[OF ok eq no, of 7 9] ok no small
  show ?thesis by simp
qed

section \<open>The rewriting loop\<close>

lemma rewrite_spans_skip:
  "length_bytes s < 0 \<Longrightarrow> rewrite_spans query st (s # ss) = rewrite_spans query st ss"
  by simp

lemma rewrite_spans_replaced:
  "rewrite_spans query st (replaced ss) = rewrite_spans query st ss"
  by (induction ss arbitrary: st) (simp_all add: replaced_def Let_def)

lemma rewrite_spans_arith:
  "rewrite_spans query st ss = Inr st' \<Longrightarrow> rewrite_inv st \<Longrightarrow>
     rewrite_inv st' \<and> quer_loc st \<le> quer_loc st' \<and>
     n_quer_loc st' - quer_loc st' =
       n_quer_loc st - quer_loc st - sum_list (map length_bytes (replaced ss))
         + int (length (replaced ss))"
proof (induction ss arbitrary: st)
  case Nil
  then show ?case by (simp add: replaced_def)
next
  case (Cons s ss)
  show ?case
  proof (cases "length_bytes s < 0")
    case True
    with Cons.prems have "rewrite_spans query st ss = Inr st'" by simp
    from Cons.IH[OF this Cons.prems(2)] True show ?thesis by (simp add: replaced_def)
  next
    case False
    let ?w = "location s - last_off st - last_tok_len st"
    let ?st1 = "\<lparr>quer_loc = location s + length_bytes s,
                n_quer_loc = n_quer_loc st + ?w + 1,
                last_off = location s,
                last_tok_len = length_bytes s,
                norm_query = norm_query st @ memcpy_from query (quer_loc st) ?w @ ''?''\<rparr>"
    from Cons.prems(1) False have w: "0 \<le> ?w"
      by (simp add: Let_def split: if_splits)
    with Cons.prems(1) False have r: "rewrite_spans query ?st1 ss = Inr st'"
      by (simp add: Let_def)
    have inv1: "rewrite_inv ?st1"
      using Cons.prems(2) w False by (simp add: rewrite_inv_def)
    from Cons.IH[OF r inv1] Cons.prems(2) w False show ?thesis
      by (simp add: replaced_def rewrite_inv_def)
  qed
qed

lemma length_memcpy_from:
  "0 \<le> from \<Longrightarrow> 0 \<le> len \<Longrightarrow> from + len \<le> int (length query) \<Longrightarrow>
     int (length (memcpy_from query from len)) = len"
  by (simp add: memcpy_from_def)

lemma rewrite_spans_written:
  "rewrite_spans query st ss = Inr st' \<Longrightarrow> rewrite_inv st \<Longrightarrow>
     quer_loc st' \<le> int (length query) \<Longrightarrow>
     int (length (norm_query st')) - n_quer_loc st' = int (length (norm_query st)) - n_quer_loc st"
proof (induction ss arbitrary: st)
  case Nil
  then show ?case by simp
next
  case (Cons s ss)
  show ?case
  proof (cases "length_bytes s < 0")
    case True
    with Cons.prems have "rewrite_spans query st ss = Inr st'" by simp
    from Cons.IH[OF this Cons.prems(2,3)] show ?thesis .
  next
    case False
    let ?w = "location s - last_off st - last_tok_len st"
    let ?st1 = "\<lparr>quer_loc = location s + length_bytes s,
                n_quer_loc = n_quer_loc st + ?w + 1,
                last_off = location s,
                last_tok_len = length_bytes s,
                norm_query = norm_query st @ memcpy_from query (quer_loc st) ?w @ ''?''\<rparr>"
    from Cons.prems(1) False have w: "0 \<le> ?w"
      by (simp add: Let_def split: if_splits)
    with Cons.prems(1) False have r: "rewrite_spans query ?st1 ss = Inr st'"
      by (simp add: Let_def)
    have inv1: "rewrite_inv ?st1"
      using Cons.prems(2) w False by (simp add: rewrite_inv_def)
    from rewrite_spans_arith[OF r inv1] have "quer_loc ?st1 \<le> quer_loc st'" by simp
    with Cons.prems(3) False have "quer_loc st + ?w \<le> int (length query)"
      using Cons.prems(2) by (simp add: rewrite_inv_def)
    with w Cons.prems(2) have "int (length (memcpy_from query (quer_loc st) ?w)) = ?w"
      by (intro length_memcpy_from) (simp_all add: rewrite_inv_def)
    with Cons.IH[OF r inv1 Cons.prems(3)] show ?thesis by simp
  qed
qed

section \<open>The scanner loop and the resolver\<close>

lemma tokens_ok_mono: "tokens_ok lo hi ts \<Longrightarrow> lo' \<le> lo \<Longrightarrow> tokens_ok lo' hi ts"
  by (cases ts) auto

lemma strlen_scanbuf:
  assumes "NUL \<notin> set query" "0 \<le> loc" "loc \<le> e" "e \<le> int (length query)"
  shows "strlen (drop (nat loc) (scanbuf query e)) = e - loc"
proof -
  let ?e = "nat e" and ?l = "nat loc"
  have le: "?l \<le> ?e" "?e \<le> length query" using assms by simp_all
  have "scanbuf query e = take ?e query @ NUL # drop (Suc ?e) (query @ [NUL, NUL])"
    using le by (simp add: scanbuf_def upd_conv_take_nth_drop)
  then have "drop ?l (scanbuf query e) =
      drop ?l (take ?e query) @ NUL # drop (Suc ?e) (query @ [NUL, NUL])"
    using le by simp
  moreover have "\<forall>c \<in> set (drop ?l (take ?e query)). c \<noteq> NUL"
    using assms(1) by (metis in_set_dropD in_set_takeD)
  ultimately have "takeWhile (\<lambda>c. c \<noteq> NUL) (drop ?l (scanbuf query e)) = drop ?l (take ?e query)"
    by (simp add: takeWhile_tail)
  then show ?thesis using le assms by (simp add: strlen_def)
qed

lemma scan_for_constant_Some:
  assumes "scan_for_constant query loc toks = Some (len, toks')"
    and "tokens_ok lo (int (length query)) toks" and "NUL \<notin> set query" and "0 \<le> loc"
  shows "1 \<le> len \<and> loc + len \<le> int (length query) \<and>
         tokens_ok (loc + len) (int (length query)) toks'"
  using assms
proof (induction toks arbitrary: lo)
  case Nil
  then show ?case by simp
next
  case (Cons t ts)
  show ?case
  proof (cases "yylloc t \<ge> loc")
    case False
    with Cons.prems have "scan_for_constant query loc ts = Some (len, toks')" by simp
    moreover from Cons.prems have "tokens_ok (yyend t) (int (length query)) ts" by simp
    ultimately show ?thesis using Cons.IH Cons.prems(3,4) by blast
  next
    case True
    note reach = True
    show ?thesis
    proof (cases "query_at query loc = CHR ''-''")
      case False
      with reach Cons.prems(1) have len: "len = strlen (drop (nat loc) (scanbuf query (yyend t)))"
        and rest: "toks' = ts" by simp_all
      from Cons.prems(2) reach have b: "loc < yyend t" "yyend t \<le> int (length query)"
        and ok: "tokens_ok (yyend t) (int (length query)) ts" by simp_all
      have "len = yyend t - loc"
        using strlen_scanbuf[OF Cons.prems(3,4), of "yyend t"] b len by simp
      with b ok rest show ?thesis by simp
    next
      case True
      with reach Cons.prems(1) obtain t2 where ts: "ts = t2 # toks'"
        and len: "len = strlen (drop (nat loc) (scanbuf query (yyend t2)))"
        by (cases ts) auto
      from Cons.prems(2) reach ts have b: "loc < yyend t2" "yyend t2 \<le> int (length query)"
        and ok: "tokens_ok (yyend t2) (int (length query)) toks'" by simp_all
      have "len = yyend t2 - loc"
        using strlen_scanbuf[OF Cons.prems(3,4), of "yyend t2"] b len by simp
      with b ok show ?thesis by simp
    qed
  qed
qed

lemma resolve_lengths_length:
  "resolve_lengths query last_loc toks ss = Inr rs \<Longrightarrow> length rs = length ss"
proof (induction ss arbitrary: last_loc toks rs)
  case Nil
  then show ?case by simp
next
  case (Cons s ss)
  then show ?case
    by (auto simp: Let_def split: if_splits sum.splits option.splits)
qed

lemma resolve_lengths_total:
  "list_all (\<lambda>s. 0 \<le> location s) ss \<Longrightarrow> \<exists>rs. resolve_lengths query last_loc toks ss = Inr rs"
proof (induction ss arbitrary: last_loc toks)
  case Nil
  then show ?case by simp
next
  case (Cons s ss)
  then have nn: "\<not> location s < 0" and rest: "list_all (\<lambda>s. 0 \<le> location s) ss" by simp_all
  show ?case
  proof (cases "location s \<le> last_loc")
    case True
    from Cons.IH[OF rest, of last_loc toks] obtain rs where
      "resolve_lengths query last_loc toks ss = Inr rs" by blast
    with True nn show ?thesis by (simp add: Let_def)
  next
    case False
    show ?thesis
    proof (cases "scan_for_constant query (location s) toks")
      case None
      with False nn show ?thesis by (simp add: Let_def)
    next
      case (Some a)
      obtain len toks' where a: "a = (len, toks')" by (cases a)
      from Cons.IH[OF rest, of "location s" toks'] obtain rs where
        "resolve_lengths query (location s) toks' ss = Inr rs" by blast
      with False nn Some a show ?thesis by (simp add: Let_def)
    qed
  qed
qed

text \<open>Every resolved span ends within the text and is at least one byte long.\<close>

lemma resolve_lengths_bounds:
  assumes "resolve_lengths query last_loc toks ss = Inr rs"
    and "tokens_ok lo (int (length query)) toks" and "NUL \<notin> set query" and "fresh ss"
  shows "list_all (\<lambda>r. length_bytes r = -1 \<or>
            (1 \<le> length_bytes r \<and> location r + length_bytes r \<le> int (length query))) rs"
  using assms
proof (induction ss arbitrary: last_loc toks rs lo)
  case Nil
  then show ?case by simp
next
  case (Cons s ss)
  from Cons.prems(4) have s: "0 \<le> location s" "length_bytes s = -1" and rest: "fresh ss"
    by (simp_all add: fresh_def)
  have keep: "list_all (\<lambda>r. length_bytes r = -1 \<or>
            (1 \<le> length_bytes r \<and> location r + length_bytes r \<le> int (length query))) (s # ss)"
    using Cons.prems(4) by (simp add: fresh_def list_all_iff)
  show ?case
  proof (cases "location s \<le> last_loc")
    case True
    with Cons.prems(1) s obtain rs' where
      r: "resolve_lengths query last_loc toks ss = Inr rs'" and rs: "rs = s # rs'"
      by (auto simp: Let_def split: sum.splits)
    from Cons.IH[OF r Cons.prems(2,3) rest] rs s show ?thesis by simp
  next
    case False
    show ?thesis
    proof (cases "scan_for_constant query (location s) toks")
      case None
      with False Cons.prems(1) s have "rs = s # ss" by (simp add: Let_def)
      with keep show ?thesis by simp
    next
      case (Some a)
      obtain len toks' where a: "a = (len, toks')" by (cases a)
      with Some False Cons.prems(1) s obtain rs' where
        r: "resolve_lengths query (location s) toks' ss = Inr rs'"
        and rs: "rs = s\<lparr>length_bytes := len\<rparr> # rs'"
        by (auto simp: Let_def split: sum.splits)
      from scan_for_constant_Some[OF Some[unfolded a] Cons.prems(2,3) s(1)]
      have b: "1 \<le> len" "location s + len \<le> int (length query)"
        and ok: "tokens_ok (location s + len) (int (length query)) toks'" by simp_all
      from Cons.IH[OF r ok Cons.prems(3) rest] rs b show ?thesis by simp
    qed
  qed
qed

lemma scan_for_constant_skip:
  "list_all (\<lambda>u. yylloc u < loc) pre \<Longrightarrow>
     scan_for_constant query loc (pre @ ts) = scan_for_constant query loc ts"
  by (induction pre) simp_all

lemma scan_for_constant_None_iff:
  "scan_for_constant query loc toks = None \<longleftrightarrow>
     list_all (\<lambda>u. yylloc u < loc) toks \<or>
     (query_at query loc = CHR ''-'' \<and>
      (\<exists>pre t. toks = pre @ [t] \<and> list_all (\<lambda>u. yylloc u < loc) pre \<and> loc \<le> yylloc t))"
proof (induction toks)
  case Nil
  show ?case by simp
next
  case (Cons t ts)
  show ?case
  proof (cases "yylloc t \<ge> loc")
    case True
    have "(\<exists>pre u. t # ts = pre @ [u] \<and> list_all (\<lambda>u. yylloc u < loc) pre \<and> loc \<le> yylloc u)
            \<longleftrightarrow> ts = []"
    proof
      assume "\<exists>pre u. t # ts = pre @ [u] \<and> list_all (\<lambda>u. yylloc u < loc) pre \<and> loc \<le> yylloc u"
      then obtain pre u where eq: "t # ts = pre @ [u]"
        and pre: "list_all (\<lambda>u. yylloc u < loc) pre" by blast
      show "ts = []"
      proof (cases pre)
        case Nil
        with eq show ?thesis by simp
      next
        case (Cons p ps)
        with eq have "p = t" by simp
        with Cons pre True show ?thesis by simp
      qed
    next
      assume "ts = []"
      then have "t # ts = [] @ [t] \<and> list_all (\<lambda>u. yylloc u < loc) [] \<and> loc \<le> yylloc t"
        using True by simp
      then show "\<exists>pre u. t # ts = pre @ [u] \<and> list_all (\<lambda>u. yylloc u < loc) pre \<and> loc \<le> yylloc u"
        by blast
    qed
    with True show ?thesis by (cases ts) auto
  next
    case False
    have "(\<exists>pre u. t # ts = pre @ [u] \<and> list_all (\<lambda>u. yylloc u < loc) pre \<and> loc \<le> yylloc u)
            \<longleftrightarrow> (\<exists>pre u. ts = pre @ [u] \<and> list_all (\<lambda>u. yylloc u < loc) pre \<and> loc \<le> yylloc u)"
    proof
      assume "\<exists>pre u. t # ts = pre @ [u] \<and> list_all (\<lambda>u. yylloc u < loc) pre \<and> loc \<le> yylloc u"
      then obtain pre u where eq: "t # ts = pre @ [u]"
        and pre: "list_all (\<lambda>u. yylloc u < loc) pre" and u: "loc \<le> yylloc u" by blast
      show "\<exists>pre u. ts = pre @ [u] \<and> list_all (\<lambda>u. yylloc u < loc) pre \<and> loc \<le> yylloc u"
      proof (cases pre)
        case Nil
        with eq u False show ?thesis by simp
      next
        case (Cons p ps)
        with eq pre have "ts = ps @ [u]" "list_all (\<lambda>u. yylloc u < loc) ps" by simp_all
        with u show ?thesis by blast
      qed
    next
      assume "\<exists>pre u. ts = pre @ [u] \<and> list_all (\<lambda>u. yylloc u < loc) pre \<and> loc \<le> yylloc u"
      then obtain pre u where "ts = pre @ [u]" "list_all (\<lambda>u. yylloc u < loc) pre" "loc \<le> yylloc u"
        by blast
      with False have "t # ts = (t # pre) @ [u] \<and> list_all (\<lambda>u. yylloc u < loc) (t # pre) \<and> loc \<le> yylloc u"
        by simp
      then show "\<exists>pre u. t # ts = pre @ [u] \<and> list_all (\<lambda>u. yylloc u < loc) pre \<and> loc \<le> yylloc u"
        by blast
    qed
    with False Cons.IH show ?thesis by simp
  qed
qed

lemma rewrite_spans_unresolved:
  "list_all (\<lambda>x. length_bytes x = -1) ss \<Longrightarrow> rewrite_spans query st ss = Inr st"
  by (induction ss) simp_all

section \<open>The functions on the working state\<close>

lemma comp_location_le: "comp_location a b \<le> 0 \<longleftrightarrow> location a \<le> location b"
  by (simp add: comp_location_def Let_def)

text \<open>The sort returns the same records, in an order that \<^verbatim>\<open>comp_location\<close> accepts.\<close>

lemma qsort_comp_location_sorted:
  "sorted_wrt (\<lambda>a b. comp_location a b \<le> 0) (qsort_comp_location xs) \<and>
   set (qsort_comp_location xs) = set xs \<and> length (qsort_comp_location xs) = length xs"
proof -
  have "sorted (map location (sort_key location xs))" by simp
  then have "sorted_wrt (\<lambda>a b. location a \<le> location b) (sort_key location xs)"
    by (simp only: sorted_map)
  then show ?thesis by (simp add: qsort_comp_location_def comp_location_le)
qed

lemma length_entries_le: "int (length (entries js)) \<le> max 0 (clocations_count js)"
  by (simp add: entries_def)

lemma entries_store_entries:
  "length rs = length (entries js) \<Longrightarrow> entries (store_entries rs js) = rs"
  by (simp add: entries_def store_entries_def min_def comp_def split: if_splits)

lemma sorted_entries:
  "(if clocations_count js > 1 then qsort_comp_location (entries js) else entries js) =
     sort_key location (entries js)"
proof (cases "clocations_count js > 1")
  case True
  then show ?thesis by (simp add: qsort_comp_location_def)
next
  case False
  with length_entries_le[of js] have "length (entries js) \<le> 1" by simp
  then have "sort_key location (entries js) = entries js"
    by (cases "entries js") simp_all
  with False show ?thesis by simp
qed

lemma fill_in_constant_lengths_unfold:
  "fill_in_constant_lengths toks js query =
     (case resolve_lengths query (-1) toks (sort_key location (entries js)) of
        Inl f \<Rightarrow> Inl f
      | Inr rs \<Rightarrow> Inr (store_entries rs js))"
  unfolding fill_in_constant_lengths_def Let_def sorted_entries ..

lemma fill_in_constant_lengths_entries:
  assumes "fill_in_constant_lengths toks js query = Inr js'"
  shows "resolve_lengths query (-1) toks (sort_key location (entries js)) = Inr (entries js')"
proof -
  from assms obtain rs where
    r: "resolve_lengths query (-1) toks (sort_key location (entries js)) = Inr rs"
    and js': "js' = store_entries rs js"
    by (auto simp: fill_in_constant_lengths_unfold split: sum.splits)
  from resolve_lengths_length[OF r] have "length rs = length (entries js)" by simp
  with js' r show ?thesis by (simp add: entries_store_entries)
qed

lemma generate_normalized_query_unfold:
  "generate_normalized_query toks js query query_len =
     (case resolve_lengths query (-1) toks (sort_key location (entries js)) of
        Inl f \<Rightarrow> Inl f
      | Inr rs \<Rightarrow>
          (case rewrite_spans query rewrite_init rs of
             Inl f \<Rightarrow> Inl f
           | Inr st \<Rightarrow>
               let len_to_wrt = query_len - quer_loc st in
               if len_to_wrt < 0 then Inl Assert_len_to_wrt_ge_0
               else
                 let n = n_quer_loc st + len_to_wrt in
                 if n > query_len then Inl Assert_n_quer_loc_le_query_len
                 else Inr (norm_query st @ memcpy_from query (quer_loc st) len_to_wrt, n)))"
proof (cases "resolve_lengths query (-1) toks (sort_key location (entries js))")
  case (Inl f)
  then show ?thesis
    by (simp add: generate_normalized_query_def fill_in_constant_lengths_unfold)
next
  case (Inr rs)
  from resolve_lengths_length[OF Inr] have "length rs = length (entries js)" by simp
  then have "entries (store_entries rs js) = rs" by (rule entries_store_entries)
  with Inr show ?thesis
    by (simp add: generate_normalized_query_def fill_in_constant_lengths_unfold)
qed

lemma generate_normalized_query_no_spans:
  assumes "entries js = []"
  shows "generate_normalized_query toks js query (int (length query)) =
           Inr (query, int (length query))"
  using assms
  by (simp add: generate_normalized_query_unfold rewrite_init_def memcpy_from_def)

text \<open>
  C6: with an empty span set the result is the source text, byte for byte, with its length;
  and a query whose tree holds no constant with a known location comes back from
  \<^verbatim>\<open>pg_query_normalize\<close> unchanged.
\<close>

theorem empty_span_set_copies_source:
  "(clocations_count jstate = 0 \<longrightarrow>
      generate_normalized_query toks jstate query (int (length query)) =
        Inr (query, int (length query))) \<and>
   (NUL \<notin> set query \<and> raw_parser query = Inr tree \<and> recorded tree = [] \<longrightarrow>
      pg_query_normalize avail raw_parser core_yylex (T_STRING query) = Inr (Returned query))"
proof -
  have "generate_normalized_query toks jstate query (int (length query)) =
        Inr (query, int (length query))" if "clocations_count jstate = 0"
    using that by (intro generate_normalized_query_no_spans) (simp add: entries_def)
  moreover have "pg_query_normalize avail raw_parser core_yylex (T_STRING query) = Inr (Returned query)"
    if z: "NUL \<notin> set query" and p: "raw_parser query = Inr tree" and r: "recorded tree = []"
  proof -
    let ?js0 = "\<lparr>clocations = replicate 32 None, clocations_buf_size = 32,
                  clocations_count = 0\<rparr>"
    from r have "appends_succeed avail (clocations_count ?js0) (length (recorded tree))"
      by (simp add: appends_succeed_def)
    with walker_collects(1)[of ?js0 avail tree] jstate_ok_initial r obtain js' where
      w: "const_record_walker avail tree ?js0 = Inr (PG_return False, js')"
      and e: "entries js' = []"
      by (auto simp: entries_initial)
    from generate_normalized_query_no_spans[OF e]
    have "generate_normalized_query (core_yylex query) js' query (int (length query)) =
            Inr (query, int (length query))" .
    with z p w show ?thesis by (simp add: pg_query_normalize_def)
  qed
  ultimately show ?thesis by blast
qed

theorem empty_span_set_copies_source_witness:
  "clocations_count (jstate_of []) = 0 \<and>
   generate_normalized_query [tok 0 6, tok 7 8, tok 9 13, tok 14 15] (jstate_of [])
     ''SELECT a FROM t'' 15 = Inr (''SELECT a FROM t'', 15) \<and>
   recorded (Some (Interior [None, Some (Interior [])])) = [] \<and>
   pg_query_normalize 0 (\<lambda>q. Inr (Some (Interior [None, Some (Interior [])])))
     (\<lambda>q. [tok 0 6, tok 7 8, tok 9 13, tok 14 15]) (T_STRING ''SELECT a FROM t'') =
     Inr (Returned ''SELECT a FROM t'')"
  using empty_span_set_copies_source[where jstate = "jstate_of []"
      and toks = "[tok 0 6, tok 7 8, tok 9 13, tok 14 15]"
      and query = "''SELECT a FROM t''"
      and raw_parser = "\<lambda>q. Inr (Some (Interior [None, Some (Interior [])]))"
      and tree = "Some (Interior [None, Some (Interior [])])"
      and core_yylex = "\<lambda>q. [tok 0 6, tok 7 8, tok 9 13, tok 14 15]"
      and avail = 0]
  by (simp add: jstate_of_def NUL_def)

text \<open>
  C7: for an argument that is a string without a zero byte, when \<^verbatim>\<open>raw_parser\<close>
  raises on its text, \<^verbatim>\<open>pg_query_normalize\<close> raises \<^verbatim>\<open>PgQuery::ParseError\<close> with
  the message and the cursor position of that error and returns no string; and it raises
  an exception only then.
\<close>

theorem parse_failure_raises_parse_error:
  assumes "NUL \<notin> set str"
  shows "(raw_parser str = Inl error \<longrightarrow>
            pg_query_normalize avail raw_parser core_yylex (T_STRING str) =
              Inr (Raised (ParseError (message error) (cursorpos error))) \<and>
            pg_query_normalize avail raw_parser core_yylex (T_STRING str) \<noteq>
              Inr (Returned norm)) \<and>
         (pg_query_normalize avail raw_parser core_yylex (T_STRING str) = Inr (Raised e) \<longrightarrow>
            (\<exists>error. raw_parser str = Inl error \<and>
               e = ParseError (message error) (cursorpos error)))"
proof -
  let ?js0 = "\<lparr>clocations = replicate 32 None, clocations_buf_size = 32,
                clocations_count = 0\<rparr>"
  have first: "pg_query_normalize avail raw_parser core_yylex (T_STRING str) =
              Inr (Raised (ParseError (message error) (cursorpos error)))"
    if "raw_parser str = Inl error"
    using that assms by (simp add: pg_query_normalize_def new_parse_error_def)
  have second: "\<exists>error. raw_parser str = Inl error \<and>
               e = ParseError (message error) (cursorpos error)"
    if r: "pg_query_normalize avail raw_parser core_yylex (T_STRING str) = Inr (Raised e)"
  proof (cases "raw_parser str")
    case (Inl error)
    with r assms show ?thesis by (simp add: pg_query_normalize_def new_parse_error_def)
  next
    case (Inr tree)
    have "const_record_walker avail tree ?js0 \<noteq> Inr (PG_error err, js)" for err js
      by (rule const_record_walker_no_error) simp
    with r assms Inr have False
      by (auto simp: pg_query_normalize_def Let_def
               split: sum.splits prod.splits pg_result.splits)
    then show ?thesis ..
  qed
  from first second show ?thesis by auto
qed

theorem parse_failure_raises_parse_error_witness:
  "NUL \<notin> set ''SELECT ('' \<and>
   pg_query_normalize 0 (\<lambda>q. Inl \<lparr>message = ''syntax error at end of input'', cursorpos = 8\<rparr>)
     (\<lambda>q. []) (T_STRING ''SELECT ('') =
     Inr (Raised (ParseError ''syntax error at end of input'' 8))"
proof -
  let ?error = "\<lparr>message = ''syntax error at end of input'', cursorpos = 8\<rparr>"
  have z: "NUL \<notin> set ''SELECT (''" by (simp add: NUL_def)
  have p: "(\<lambda>q. Inl ?error) ''SELECT ('' = (Inl ?error :: ErrorData + node option)" by simp
  note t = parse_failure_raises_parse_error[OF z, where raw_parser = "\<lambda>q. Inl ?error"
      and error = ?error and core_yylex = "\<lambda>q. []" and avail = 0 and norm = "[]"
      and e = TypeError, THEN conjunct1, THEN mp, OF p, THEN conjunct1]
  have "pg_query_normalize 0 (\<lambda>q. Inl ?error) (\<lambda>q. []) (T_STRING ''SELECT ('') =
     Inr (Raised (ParseError (message ?error) (cursorpos ?error)))"
    by (rule t)
  then have "pg_query_normalize 0 (\<lambda>q. Inl ?error) (\<lambda>q. []) (T_STRING ''SELECT ('') =
     Inr (Raised (ParseError ''syntax error at end of input'' 8))"
    by (simp only: ErrorData.simps)
  with z show ?thesis by (rule conjI)
qed

text \<open>
  C4: when the scanner reaches the end of the input before a token that starts at or behind
  the location of the current span, or while it lexes the extra token of a constant that
  begins with \<open>-\<close>, the inner loop ends with \<^verbatim>\<open>tok == 0\<close>; the resolver then stops
  without a failure and leaves this span and all spans behind it as they are, with length
  \<open>-1\<close>; and the rewriting loop passes over all of them without a change of its state.
\<close>

theorem end_of_input_stops_resolution:
  assumes "list_all (\<lambda>u. yylloc u < location s) toks \<or>
     (query_at query (location s) = CHR ''-'' \<and>
      (\<exists>pre t. toks = pre @ [t] \<and> list_all (\<lambda>u. yylloc u < location s) pre \<and>
         location s \<le> yylloc t))"
    and "last_loc < location s" and "0 \<le> location s"
    and "list_all (\<lambda>x. length_bytes x = -1) (s # ss)"
  shows "scan_for_constant query (location s) toks = None \<and>
         resolve_lengths query last_loc toks (s # ss) = Inr (s # ss) \<and>
         rewrite_spans query st (s # ss) = Inr st"
proof -
  have n: "scan_for_constant query (location s) toks = None"
    using assms(1) by (simp only: scan_for_constant_None_iff)
  have "resolve_lengths query last_loc toks (s # ss) = Inr (s # ss)"
    using n assms(2,3) by (simp add: Let_def)
  moreover have "rewrite_spans query st (s # ss) = Inr st"
    using assms(4) by (rule rewrite_spans_unresolved)
  ultimately show ?thesis using n by simp
qed

theorem end_of_input_stops_resolution_witness:
  "scan_for_constant ''SELECT -'' 7 [tok 0 6, tok 7 8] = None \<and>
   resolve_lengths ''SELECT -'' (-1) [tok 0 6, tok 7 8] [fresh_span 7, fresh_span 9] =
     Inr [fresh_span 7, fresh_span 9] \<and>
   rewrite_spans ''SELECT -'' rewrite_init [fresh_span 7, fresh_span 9] = Inr rewrite_init"
proof -
  have a: "list_all (\<lambda>u. yylloc u < location (fresh_span 7)) [tok 0 6, tok 7 8] \<or>
     (query_at ''SELECT -'' (location (fresh_span 7)) = CHR ''-'' \<and>
      (\<exists>pre t. [tok 0 6, tok 7 8] = pre @ [t] \<and>
         list_all (\<lambda>u. yylloc u < location (fresh_span 7)) pre \<and>
         location (fresh_span 7) \<le> yylloc t))"
  proof -
    have "[tok 0 6, tok 7 8] = [tok 0 6] @ [tok 7 8] \<and>
         list_all (\<lambda>u. yylloc u < location (fresh_span 7)) [tok 0 6] \<and>
         location (fresh_span 7) \<le> yylloc (tok 7 8)"
      by (simp add: tok_def fresh_span_def)
    then have "\<exists>pre t. [tok 0 6, tok 7 8] = pre @ [t] \<and>
         list_all (\<lambda>u. yylloc u < location (fresh_span 7)) pre \<and>
         location (fresh_span 7) \<le> yylloc t"
      by blast
    moreover have "query_at ''SELECT -'' (location (fresh_span 7)) = CHR ''-''"
      by (simp add: query_at_def fresh_span_def)
    ultimately show ?thesis by blast
  qed
  have b: "(-1) < location (fresh_span 7)" "0 \<le> location (fresh_span 7)"
    by (simp_all add: fresh_span_def)
  have c: "list_all (\<lambda>x. length_bytes x = -1) [fresh_span 7, fresh_span 9]"
    by (simp add: fresh_span_def)
  from end_of_input_stops_resolution[OF a b c, of rewrite_init]
  show ?thesis by (simp add: fresh_span_def)
qed

text \<open>
  C1: when the byte at the location of a constant is \<open>-\<close>, the scanner loop lexes exactly
  one token more than the first one that starts at or behind the location, and the length
  it stores reaches from the location to the end of that second token (sign and magnitude
  as one span). Without the \<open>-\<close> it stops at the first token. With the tokens of
  PostgreSQL for the two texts, \<^verbatim>\<open>WHERE x = 1\<close> and \<^verbatim>\<open>WHERE x = -2\<close> have the same
  normalized text, with one placeholder.
\<close>

theorem minus_sign_merges_next_token:
  assumes "list_all (\<lambda>u. yylloc u < loc) pre" and "loc \<le> yylloc t"
  shows "(query_at query loc = CHR ''-'' \<longrightarrow>
            scan_for_constant query loc (pre @ t # t2 # rest) =
              Some (strlen (drop (nat loc) (scanbuf query (yyend t2))), rest)) \<and>
         (query_at query loc \<noteq> CHR ''-'' \<longrightarrow>
            scan_for_constant query loc (pre @ t # t2 # rest) =
              Some (strlen (drop (nat loc) (scanbuf query (yyend t))), t2 # rest)) \<and>
         (NUL \<notin> set query \<and> 0 \<le> loc \<and> loc \<le> yyend t2 \<and> yyend t2 \<le> int (length query) \<longrightarrow>
            strlen (drop (nat loc) (scanbuf query (yyend t2))) = yyend t2 - loc) \<and>
         generate_normalized_query [tok 0 5, tok 6 7, tok 8 9, tok 10 11]
           (jstate_of [fresh_span 10]) ''WHERE x = 1'' 11 = Inr (''WHERE x = ?'', 11) \<and>
         generate_normalized_query [tok 0 5, tok 6 7, tok 8 9, tok 10 11, tok 11 12]
           (jstate_of [fresh_span 10]) ''WHERE x = -2'' 12 = Inr (''WHERE x = ?'', 11)"
proof -
  have "scan_for_constant query loc (pre @ t # t2 # rest) =
          Some (strlen (drop (nat loc) (scanbuf query (yyend t2))), rest)"
    if "query_at query loc = CHR ''-''"
    using that assms by (simp add: scan_for_constant_skip)
  moreover have "scan_for_constant query loc (pre @ t # t2 # rest) =
          Some (strlen (drop (nat loc) (scanbuf query (yyend t))), t2 # rest)"
    if "query_at query loc \<noteq> CHR ''-''"
    using that assms by (simp add: scan_for_constant_skip)
  moreover have "strlen (drop (nat loc) (scanbuf query (yyend t2))) = yyend t2 - loc"
    if "NUL \<notin> set query \<and> 0 \<le> loc \<and> loc \<le> yyend t2 \<and> yyend t2 \<le> int (length query)"
    using that by (intro strlen_scanbuf) simp_all
  moreover have "generate_normalized_query [tok 0 5, tok 6 7, tok 8 9, tok 10 11]
           (jstate_of [fresh_span 10]) ''WHERE x = 1'' 11 = Inr (''WHERE x = ?'', 11)"
    by (simp add: generate_normalized_query_unfold jstate_of_def entries_def fresh_span_def
          tok_def query_at_def scanbuf_def strlen_def NUL_def rewrite_init_def memcpy_from_def)
  moreover have "generate_normalized_query [tok 0 5, tok 6 7, tok 8 9, tok 10 11, tok 11 12]
           (jstate_of [fresh_span 10]) ''WHERE x = -2'' 12 = Inr (''WHERE x = ?'', 11)"
    by (simp add: generate_normalized_query_unfold jstate_of_def entries_def fresh_span_def
          tok_def query_at_def scanbuf_def strlen_def NUL_def rewrite_init_def memcpy_from_def)
  ultimately show ?thesis by blast
qed

theorem minus_sign_merges_next_token_witness:
  "list_all (\<lambda>u. yylloc u < 7) [tok 0 6] \<and> (7::int) \<le> yylloc (tok 7 8) \<and>
   query_at ''SELECT -5 + y'' 7 = CHR ''-'' \<and>
   scan_for_constant ''SELECT -5 + y'' 7 ([tok 0 6] @ tok 7 8 # tok 8 9 # [tok 10 11, tok 12 13]) =
     Some (2, [tok 10 11, tok 12 13])"
proof -
  have a: "list_all (\<lambda>u. yylloc u < 7) [tok 0 6]" by (simp add: tok_def)
  have b: "(7::int) \<le> yylloc (tok 7 8)" by (simp add: tok_def)
  have c: "query_at ''SELECT -5 + y'' 7 = CHR ''-''" by (simp add: query_at_def)
  have d: "NUL \<notin> set ''SELECT -5 + y'' \<and> (0::int) \<le> 7 \<and> 7 \<le> yyend (tok 8 9) \<and>
           yyend (tok 8 9) \<le> int (length ''SELECT -5 + y'')"
    by (simp add: NUL_def tok_def)
  from minus_sign_merges_next_token[OF a b, of "''SELECT -5 + y''" "tok 8 9"
      "[tok 10 11, tok 12 13]"] c d
  have "scan_for_constant ''SELECT -5 + y'' 7 ([tok 0 6] @ tok 7 8 # tok 8 9 # [tok 10 11, tok 12 13]) =
     Some (yyend (tok 8 9) - 7, [tok 10 11, tok 12 13])"
    by simp
  with a b c show ?thesis by (simp add: tok_def)
qed

section \<open>The length of the result\<close>

lemma fresh_sort_key: "fresh ss \<Longrightarrow> fresh (sort_key location ss)"
  by (simp add: fresh_def list_all_iff)

lemma rewrite_spans_Inl:
  "rewrite_spans query st ss = Inl f \<Longrightarrow> f = Assert_len_to_wrt_ge_0"
  by (induction ss arbitrary: st) (auto simp: Let_def split: if_splits)

lemma rewrite_spans_succeeds_iff:
  "rewrite_inv st \<Longrightarrow>
     (\<exists>st'. rewrite_spans query st ss = Inr st') \<longleftrightarrow> non_overlapping (quer_loc st) ss"
proof (induction ss arbitrary: st)
  case Nil
  show ?case by simp
next
  case (Cons s ss)
  show ?case
  proof (cases "length_bytes s < 0")
    case True
    with Cons.IH[OF Cons.prems] show ?thesis by simp
  next
    case False
    let ?w = "location s - last_off st - last_tok_len st"
    let ?st1 = "\<lparr>quer_loc = location s + length_bytes s,
                n_quer_loc = n_quer_loc st + ?w + 1,
                last_off = location s,
                last_tok_len = length_bytes s,
                norm_query = norm_query st @ memcpy_from query (quer_loc st) ?w @ ''?''\<rparr>"
    have w: "?w = location s - quer_loc st"
      using Cons.prems by (simp add: rewrite_inv_def)
    show ?thesis
    proof (cases "?w < 0")
      case True
      with False w show ?thesis by (simp add: Let_def)
    next
      case nonneg: False
      then have inv1: "rewrite_inv ?st1"
        using Cons.prems False by (simp add: rewrite_inv_def)
      have step: "rewrite_spans query st (s # ss) = rewrite_spans query ?st1 ss"
        using False nonneg by (simp add: Let_def)
      have no: "non_overlapping (quer_loc st) (s # ss) =
                  non_overlapping (location s + length_bytes s) ss"
        using False nonneg w by simp
      from Cons.IH[OF inv1]
      have "(\<exists>st'. rewrite_spans query ?st1 ss = Inr st') \<longleftrightarrow>
              non_overlapping (location s + length_bytes s) ss"
        by simp
      then show ?thesis unfolding step no .
    qed
  qed
qed

lemma rewrite_spans_quer_loc_le:
  "rewrite_spans query st ss = Inr st' \<Longrightarrow> quer_loc st \<le> b \<Longrightarrow>
     list_all (\<lambda>r. length_bytes r < 0 \<or> location r + length_bytes r \<le> b) ss \<Longrightarrow>
     quer_loc st' \<le> b"
proof (induction ss arbitrary: st)
  case Nil
  then show ?case by simp
next
  case (Cons s ss)
  show ?case
  proof (cases "length_bytes s < 0")
    case True
    with Cons.prems have "rewrite_spans query st ss = Inr st'"
      and "list_all (\<lambda>r. length_bytes r < 0 \<or> location r + length_bytes r \<le> b) ss"
      by simp_all
    from Cons.IH[OF this(1) Cons.prems(2) this(2)] show ?thesis .
  next
    case False
    let ?w = "location s - last_off st - last_tok_len st"
    let ?st1 = "\<lparr>quer_loc = location s + length_bytes s,
                n_quer_loc = n_quer_loc st + ?w + 1,
                last_off = location s,
                last_tok_len = length_bytes s,
                norm_query = norm_query st @ memcpy_from query (quer_loc st) ?w @ ''?''\<rparr>"
    from Cons.prems(1) False have r: "rewrite_spans query ?st1 ss = Inr st'"
      by (simp add: Let_def split: if_splits)
    from Cons.prems(3) False have "quer_loc ?st1 \<le> b"
      and "list_all (\<lambda>r. length_bytes r < 0 \<or> location r + length_bytes r \<le> b) ss"
      by simp_all
    from Cons.IH[OF r this] show ?thesis .
  qed
qed

lemma replaced_sum_ge:
  "list_all (\<lambda>r. length_bytes r = -1 \<or> (1 \<le> length_bytes r \<and> location r + length_bytes r \<le> b)) rs \<Longrightarrow>
     int (length (replaced rs)) \<le> sum_list (map length_bytes (replaced rs))"
  by (induction rs) (auto simp: replaced_def)

lemma replaced_sum_gt:
  "list_all (\<lambda>r. length_bytes r = -1 \<or> (1 \<le> length_bytes r \<and> location r + length_bytes r \<le> b)) rs \<Longrightarrow>
     \<exists>s \<in> set (replaced rs). 2 \<le> length_bytes s \<Longrightarrow>
     int (length (replaced rs)) < sum_list (map length_bytes (replaced rs))"
proof (induction rs)
  case Nil
  then show ?case by (simp add: replaced_def)
next
  case (Cons r rs)
  from Cons.prems(1) have rest:
    "list_all (\<lambda>r. length_bytes r = -1 \<or> (1 \<le> length_bytes r \<and> location r + length_bytes r \<le> b)) rs"
    by simp
  show ?case
  proof (cases "\<exists>s \<in> set (replaced rs). 2 \<le> length_bytes s")
    case True
    from Cons.IH[OF rest True] Cons.prems(1) show ?thesis by (auto simp: replaced_def)
  next
    case False
    with Cons.prems(2) have "2 \<le> length_bytes r" by (auto simp: replaced_def split: if_splits)
    with replaced_sum_ge[OF rest] show ?thesis by (simp add: replaced_def)
  qed
qed

text \<open>What a run of \<^verbatim>\<open>generate_normalized_query\<close> that returns has computed.\<close>

lemma generate_normalized_query_Inr:
  assumes "generate_normalized_query toks js query (int (length query)) = Inr (out, n)"
  shows "\<exists>rs st. resolve_lengths query (-1) toks (sort_key location (entries js)) = Inr rs \<and>
           rewrite_spans query rewrite_init rs = Inr st \<and>
           quer_loc st \<le> int (length query) \<and>
           n = int (length out) \<and>
           n = int (length query) - sum_list (map length_bytes (replaced rs))
                 + int (length (replaced rs))"
proof -
  from assms obtain rs st where
    r: "resolve_lengths query (-1) toks (sort_key location (entries js)) = Inr rs"
    and w: "rewrite_spans query rewrite_init rs = Inr st"
    and le: "quer_loc st \<le> int (length query)"
    and n: "n = n_quer_loc st + (int (length query) - quer_loc st)"
    and out: "out = norm_query st @ memcpy_from query (quer_loc st) (int (length query) - quer_loc st)"
    by (auto simp: generate_normalized_query_unfold Let_def split: sum.splits if_splits)
  have inv0: "rewrite_inv rewrite_init" by (simp add: rewrite_inv_def rewrite_init_def)
  from rewrite_spans_arith[OF w inv0]
  have inv: "rewrite_inv st"
    and ar: "n_quer_loc st - quer_loc st =
       - sum_list (map length_bytes (replaced rs)) + int (length (replaced rs))"
    by (simp_all add: rewrite_init_def)
  from rewrite_spans_written[OF w inv0 le]
  have wr: "int (length (norm_query st)) = n_quer_loc st" by (simp add: rewrite_init_def)
  from inv le have "int (length (memcpy_from query (quer_loc st) (int (length query) - quer_loc st)))
      = int (length query) - quer_loc st"
    by (intro length_memcpy_from) (simp_all add: rewrite_inv_def)
  with wr out n have "n = int (length out)" by simp
  moreover from ar n have "n = int (length query) - sum_list (map length_bytes (replaced rs))
                 + int (length (replaced rs))" by simp
  ultimately show ?thesis using r w le by blast
qed

lemma resolved_bounds:
  assumes "valid_scan query toks" and "fresh (entries js)"
    and "resolve_lengths query (-1) toks (sort_key location (entries js)) = Inr rs"
  shows "list_all (\<lambda>r. length_bytes r = -1 \<or>
            (1 \<le> length_bytes r \<and> location r + length_bytes r \<le> int (length query))) rs"
  using assms resolve_lengths_bounds[OF assms(3), of 0] fresh_sort_key[OF assms(2)]
  by (simp add: valid_scan_def)

lemma generate_normalized_query_not_longer:
  assumes "valid_scan query toks" and "fresh (entries js)"
  shows "case generate_normalized_query toks js query (int (length query)) of
           Inr (out, n) \<Rightarrow> length out \<le> length query \<and> n = int (length out)
         | Inl f \<Rightarrow> f = Assert_len_to_wrt_ge_0"
proof (cases "generate_normalized_query toks js query (int (length query))")
  case (Inr res)
  obtain out n where res: "res = (out, n)" by (cases res)
  from generate_normalized_query_Inr[OF Inr[unfolded res]] obtain rs where
    r: "resolve_lengths query (-1) toks (sort_key location (entries js)) = Inr rs"
    and n: "n = int (length out)"
    and f: "n = int (length query) - sum_list (map length_bytes (replaced rs))
                 + int (length (replaced rs))"
    by blast
  from replaced_sum_ge[OF resolved_bounds[OF assms r]] f n
  have "length out \<le> length query" by simp
  with Inr res n show ?thesis by simp
next
  case (Inl f)
  from resolve_lengths_total[of "sort_key location (entries js)" query "-1" toks]
    fresh_sort_key[OF assms(2)]
  obtain rs where
    r: "resolve_lengths query (-1) toks (sort_key location (entries js)) = Inr rs"
    by (auto simp: fresh_def list_all_iff)
  show ?thesis
  proof (cases "rewrite_spans query rewrite_init rs")
    case bad: (Inl g)
    with Inl r rewrite_spans_Inl[OF bad] show ?thesis
      by (simp add: generate_normalized_query_unfold)
  next
    case ok: (Inr st)
    have inv0: "rewrite_inv rewrite_init" by (simp add: rewrite_inv_def rewrite_init_def)
    from rewrite_spans_arith[OF ok inv0]
    have ar: "n_quer_loc st - quer_loc st =
       - sum_list (map length_bytes (replaced rs)) + int (length (replaced rs))"
      by (simp add: rewrite_init_def)
    with replaced_sum_ge[OF resolved_bounds[OF assms r]]
    have "n_quer_loc st + (int (length query) - quer_loc st) \<le> int (length query)" by simp
    with Inl r ok show ?thesis
      by (simp add: generate_normalized_query_unfold Let_def split: if_splits)
  qed
qed


lemma recorded_nonneg:
  "list_all (\<lambda>l. 0 \<le> l) (recorded p)"
  "list_all (\<lambda>l. 0 \<le> l) (recorded_node n)"
  "list_all (\<lambda>l. 0 \<le> l) (recorded_list ps)"
  by (induction p and n and ps rule: recorded_recorded_node_recorded_list.induct) simp_all

lemma fresh_recorded: "fresh (map fresh_span (recorded tree))"
  using recorded_nonneg(1)[of tree]
  by (simp add: fresh_def fresh_span_def list_all_iff)

text \<open>What a call of \<^verbatim>\<open>pg_query_normalize\<close> that returns a string has computed.\<close>

lemma pg_query_normalize_Returned:
  assumes "pg_query_normalize avail raw_parser core_yylex (T_STRING str) = Inr (Returned norm)"
  shows "NUL \<notin> set str \<and>
         (\<exists>js n. fresh (entries js) \<and>
            generate_normalized_query (core_yylex str) js str (int (length str)) = Inr (norm, n))"
proof -
  let ?js0 = "\<lparr>clocations = replicate 32 None, clocations_buf_size = 32,
                clocations_count = 0\<rparr>"
  from assms have z: "NUL \<notin> set str"
    by (auto simp: pg_query_normalize_def split: if_splits)
  with assms obtain tree where p: "raw_parser str = Inr tree"
    by (auto simp: pg_query_normalize_def Let_def split: sum.splits)
  from assms z p obtain r js n where
    w: "const_record_walker avail tree ?js0 = Inr (r, js)"
    and g: "generate_normalized_query (core_yylex str) js str (int (length str)) = Inr (norm, n)"
    by (auto simp: pg_query_normalize_def Let_def split: sum.splits prod.splits pg_result.splits)
  from walker_sane(1)[of ?js0 avail tree] jstate_sane_initial w have "jstate_sane js" by blast
  then have "fresh (entries js)" by (simp add: jstate_sane_def)
  with z g show ?thesis by blast
qed

text \<open>
  C3: for a query without zero bytes, tokens as the scanner delivers them and records as the
  walker leaves them, the result of \<^verbatim>\<open>generate_normalized_query\<close> is never longer
  than the source, and the length it reports is the length of the result. The assertion
  \<^verbatim>\<open>n_quer_loc <= query_len\<close> cannot fail; the only failure left is the assertion on
  the copy length. So every string that \<^verbatim>\<open>pg_query_normalize\<close> returns is at most as
  long as its argument.
\<close>

theorem normalized_query_not_longer:
  assumes "valid_scan query toks"
  shows "(fresh (entries jstate) \<longrightarrow>
            (case generate_normalized_query toks jstate query (int (length query)) of
               Inr (out, n) \<Rightarrow> length out \<le> length query \<and> n = int (length out)
             | Inl f \<Rightarrow> f = Assert_len_to_wrt_ge_0)) \<and>
         (core_yylex query = toks \<and>
          pg_query_normalize avail raw_parser core_yylex (T_STRING query) = Inr (Returned norm) \<longrightarrow>
            length norm \<le> length query)"
proof -
  have "length norm \<le> length query"
    if "core_yylex query = toks \<and>
        pg_query_normalize avail raw_parser core_yylex (T_STRING query) = Inr (Returned norm)"
  proof -
    from that pg_query_normalize_Returned[of avail raw_parser core_yylex query norm]
    obtain js n where fr: "fresh (entries js)"
      and g: "generate_normalized_query toks js query (int (length query)) = Inr (norm, n)"
      by auto
    from generate_normalized_query_not_longer[OF assms fr] g show ?thesis by simp
  qed
  with generate_normalized_query_not_longer[OF assms] show ?thesis by blast
qed

theorem normalized_query_not_longer_witness:
  "valid_scan ''SELECT 42, 7'' [tok 0 6, tok 7 9, tok 9 10, tok 11 12] \<and>
   fresh (entries (jstate_of [fresh_span 11, fresh_span 7])) \<and>
   generate_normalized_query [tok 0 6, tok 7 9, tok 9 10, tok 11 12]
     (jstate_of [fresh_span 11, fresh_span 7]) ''SELECT 42, 7'' 12 = Inr (''SELECT ?, ?'', 11) \<and>
   length ''SELECT ?, ?'' \<le> length ''SELECT 42, 7''"
proof -
  have a: "valid_scan ''SELECT 42, 7'' [tok 0 6, tok 7 9, tok 9 10, tok 11 12]"
    by (simp add: valid_scan_def NUL_def tok_def)
  have b: "fresh (entries (jstate_of [fresh_span 11, fresh_span 7]))"
    by (simp add: fresh_def entries_def jstate_of_def fresh_span_def)
  have c: "generate_normalized_query [tok 0 6, tok 7 9, tok 9 10, tok 11 12]
     (jstate_of [fresh_span 11, fresh_span 7]) ''SELECT 42, 7'' 12 = Inr (''SELECT ?, ?'', 11)"
    by (simp add: generate_normalized_query_unfold jstate_of_def entries_def fresh_span_def
          tok_def query_at_def scanbuf_def strlen_def NUL_def rewrite_init_def memcpy_from_def)
  from normalized_query_not_longer[OF a, of "jstate_of [fresh_span 11, fresh_span 7]"] a b c
  show ?thesis by simp
qed

section \<open>Constants at the recorded locations\<close>

lemma tokens_ok_lower: "tokens_ok lo hi toks \<Longrightarrow> u \<in> set toks \<Longrightarrow> lo \<le> yylloc u \<and> lo < yyend u"
proof (induction toks arbitrary: lo)
  case Nil
  then show ?case by simp
next
  case (Cons t ts)
  show ?case
  proof (cases "u = t")
    case True
    with Cons.prems show ?thesis by simp
  next
    case False
    with Cons.prems have "u \<in> set ts" "tokens_ok (yyend t) hi ts" by simp_all
    from Cons.IH[OF this(2,1)] Cons.prems(1) show ?thesis by simp
  qed
qed

lemma tokens_split:
  assumes "tokens_ok lo hi toks" and "loc \<in> yylloc ` set toks"
  shows "\<exists>pre t post. toks = pre @ t # post \<and> yylloc t = loc \<and>
           list_all (\<lambda>u. yylloc u < loc) pre \<and> (\<forall>u \<in> set post. loc < yylloc u) \<and>
           lo \<le> loc \<and> tokens_ok (yyend t) hi post"
  using assms
proof (induction toks arbitrary: lo)
  case Nil
  then show ?case by simp
next
  case (Cons t ts)
  from Cons.prems(1) have t: "lo \<le> yylloc t" "yylloc t < yyend t"
    and ok: "tokens_ok (yyend t) hi ts" by simp_all
  show ?case
  proof (cases "yylloc t = loc")
    case True
    have "\<forall>u \<in> set ts. loc < yylloc u"
      using tokens_ok_lower[OF ok] t True by fastforce
    with True t ok have "t # ts = [] @ t # ts \<and> yylloc t = loc \<and>
           list_all (\<lambda>u. yylloc u < loc) [] \<and> (\<forall>u \<in> set ts. loc < yylloc u) \<and>
           lo \<le> loc \<and> tokens_ok (yyend t) hi ts" by simp
    then show ?thesis by blast
  next
    case False
    with Cons.prems(2) have "loc \<in> yylloc ` set ts" by auto
    from Cons.IH[OF ok this] obtain pre u post where
      ts: "ts = pre @ u # post" and u: "yylloc u = loc"
      and pre: "list_all (\<lambda>u. yylloc u < loc) pre" and post: "\<forall>u \<in> set post. loc < yylloc u"
      and lo: "yyend t \<le> loc" and ok': "tokens_ok (yyend u) hi post"
      by blast
    from ts pre lo t have "t # ts = (t # pre) @ u # post \<and> list_all (\<lambda>u. yylloc u < loc) (t # pre)
       \<and> lo \<le> loc" by simp
    with u post ok' show ?thesis by blast
  qed
qed

lemma minus_ok_suffix: "minus_ok query locs (pre @ ts) \<Longrightarrow> minus_ok query locs ts"
proof (induction pre)
  case Nil
  then show ?case by simp
next
  case (Cons p pre)
  then have "minus_ok query locs (pre @ ts)"
    by (cases "pre @ ts") simp_all
  with Cons.IH show ?case by simp
qed

lemma minus_ok_subset:
  "minus_ok query locs ts \<Longrightarrow> set locs' \<subseteq> set locs \<Longrightarrow> minus_ok query locs' ts"
  by (induction query locs ts rule: minus_ok.induct) auto

lemma resolve_lengths_non_overlapping:
  assumes "resolve_lengths query last_loc toks ss = Inr rs"
    and "tokens_ok lo (int (length query)) toks" and "NUL \<notin> set query" and "fresh ss"
    and "\<forall>s \<in> set ss. last_loc < location s \<longrightarrow> location s \<in> yylloc ` set toks"
    and "minus_ok query (map location ss) toks"
  shows "non_overlapping lo rs"
  using assms
proof (induction ss arbitrary: last_loc toks rs lo)
  case Nil
  then show ?case by simp
next
  case (Cons s ss)
  let ?hi = "int (length query)"
  from Cons.prems(4) have s: "0 \<le> location s" "length_bytes s = -1" and rest: "fresh ss"
    by (simp_all add: fresh_def)
  have unresolved: "non_overlapping lo (s # ss)"
    using Cons.prems(4)
  proof (induction "s # ss" arbitrary: s ss)
    case (Cons s ss)
    then show ?case by (cases ss) (simp_all add: fresh_def)
  qed
  have m: "minus_ok query (map location ss) toks"
    using minus_ok_subset[OF Cons.prems(6), of "map location ss"] by auto
  show ?case
  proof (cases "location s \<le> last_loc")
    case True
    with Cons.prems(1) s obtain rs' where
      r: "resolve_lengths query last_loc toks ss = Inr rs'" and rs: "rs = s # rs'"
      by (auto simp: Let_def split: sum.splits)
    from Cons.prems(5) have "\<forall>s \<in> set ss. last_loc < location s \<longrightarrow> location s \<in> yylloc ` set toks"
      by simp
    from Cons.IH[OF r Cons.prems(2,3) rest this m] rs s show ?thesis by simp
  next
    case False
    with Cons.prems(5) have "location s \<in> yylloc ` set toks" by simp
    from tokens_split[OF Cons.prems(2) this] obtain pre t post where
      toks: "toks = pre @ t # post" and t: "yylloc t = location s"
      and pre: "list_all (\<lambda>u. yylloc u < location s) pre"
      and post: "\<forall>u \<in> set post. location s < yylloc u"
      and lo: "lo \<le> location s" and ok: "tokens_ok (yyend t) ?hi post"
      by blast
    have later: "location x \<in> yylloc ` set post" if "x \<in> set ss" "location s < location x" for x
    proof -
      from that Cons.prems(5) False have "location x \<in> yylloc ` set toks" by auto
      with toks pre that(2) t show ?thesis by (auto simp: list_all_iff)
    qed
    show ?thesis
    proof (cases "scan_for_constant query (location s) toks")
      case None
      with False Cons.prems(1) s have "rs = s # ss" by (simp add: Let_def)
      with unresolved show ?thesis by simp
    next
      case (Some a)
      obtain len toks' where a: "a = (len, toks')" by (cases a)
      with Some False Cons.prems(1) s obtain rs' where
        r: "resolve_lengths query (location s) toks' ss = Inr rs'"
        and rs: "rs = s\<lparr>length_bytes := len\<rparr> # rs'"
        by (auto simp: Let_def split: sum.splits)
      from scan_for_constant_Some[OF Some[unfolded a] Cons.prems(2,3) s(1)]
      have b: "1 \<le> len" and ok': "tokens_ok (location s + len) ?hi toks'" by simp_all
      have sc: "scan_for_constant query (location s) toks = scan_for_constant query (location s) (t # post)"
        unfolding toks using pre by (rule scan_for_constant_skip)
      have suffix: "\<exists>p. toks = p @ toks'" and
        in': "\<forall>x \<in> set ss. location s < location x \<longrightarrow> location x \<in> yylloc ` set toks'"
      proof -
        show "\<exists>p. toks = p @ toks'"
        proof (cases "query_at query (location s) = CHR ''-''")
          case True
          with Some a sc t obtain t2 where "post = t2 # toks'" by (cases post) auto
          with toks have "toks = (pre @ [t, t2]) @ toks'" by simp
          then show ?thesis by blast
        next
          case False
          with Some a sc t have "toks' = post" by simp
          with toks have "toks = (pre @ [t]) @ toks'" by simp
          then show ?thesis by blast
        qed
        show "\<forall>x \<in> set ss. location s < location x \<longrightarrow> location x \<in> yylloc ` set toks'"
        proof (cases "query_at query (location s) = CHR ''-''")
          case True
          with Some a sc t obtain t2 where p: "post = t2 # toks'" by (cases post) auto
          from minus_ok_suffix[of query "map location (s # ss)" pre "t # post"] Cons.prems(6) toks
          have "minus_ok query (map location (s # ss)) (t # t2 # toks')" using p by simp
          with t True have "yylloc t2 \<notin> set (map location (s # ss))" by simp
          then have "\<forall>x \<in> set ss. location x \<noteq> yylloc t2" by (metis image_eqI list.set_intros(2) set_map)
          with later p show ?thesis by fastforce
        next
          case False
          with Some a sc t have "toks' = post" by simp
          with later show ?thesis by simp
        qed
      qed
      from suffix obtain p where "toks = p @ toks'" by blast
      with m have m': "minus_ok query (map location ss) toks'"
        using minus_ok_suffix by blast
      from Cons.IH[OF r ok' Cons.prems(3) rest in' m'] rs lo b show ?thesis by simp
    qed
  qed
qed

lemma fill_in_non_overlapping:
  assumes "valid_scan query toks" and "fresh (entries js)"
    and "constants_at query toks (entries js)"
    and "resolve_lengths query (-1) toks (sort_key location (entries js)) = Inr rs"
  shows "non_overlapping 0 rs"
proof -
  let ?ss = "sort_key location (entries js)"
  from assms(1) have ok: "tokens_ok 0 (int (length query)) toks" and nul: "NUL \<notin> set query"
    by (simp_all add: valid_scan_def)
  from assms(3) have "\<forall>s \<in> set ?ss. -1 < location s \<longrightarrow> location s \<in> yylloc ` set toks"
    by (simp add: constants_at_def list_all_iff)
  moreover from assms(3) have "minus_ok query (map location ?ss) toks"
    using minus_ok_subset[of query "map location (entries js)" toks "map location ?ss"]
    by (simp add: constants_at_def)
  ultimately show ?thesis
    using resolve_lengths_non_overlapping[OF assms(4) ok nul fresh_sort_key[OF assms(2)]]
    by blast
qed

text \<open>
  C10: when \<^verbatim>\<open>generate_normalized_query\<close> returns, the length of the result is the
  length of the source, minus the lengths of the spans with a length of at least \<open>0\<close> in
  the resolved span set, plus the number of these spans. For a query without zero bytes,
  tokens as the scanner delivers them and records as the walker leaves them, the result is
  shorter than the source as soon as one replaced span is two bytes long or longer.
\<close>

theorem normalized_length_formula:
  assumes "fill_in_constant_lengths toks jstate query = Inr js'"
    and "generate_normalized_query toks jstate query (int (length query)) = Inr (out, n)"
  shows "int (length out) =
           int (length query) - sum_list (map length_bytes (replaced (entries js')))
             + int (length (replaced (entries js'))) \<and>
         n = int (length out) \<and>
         (valid_scan query toks \<and> fresh (entries jstate) \<and>
          (\<exists>s \<in> set (replaced (entries js')). 2 \<le> length_bytes s)
            \<longrightarrow> length out < length query)"
proof -
  from generate_normalized_query_Inr[OF assms(2)] fill_in_constant_lengths_entries[OF assms(1)]
  have r: "resolve_lengths query (-1) toks (sort_key location (entries jstate)) = Inr (entries js')"
    and n: "n = int (length out)"
    and f: "n = int (length query) - sum_list (map length_bytes (replaced (entries js')))
                 + int (length (replaced (entries js')))"
    by auto
  have "length out < length query"
    if "valid_scan query toks \<and> fresh (entries jstate) \<and>
          (\<exists>s \<in> set (replaced (entries js')). 2 \<le> length_bytes s)"
  proof -
    from that have v: "valid_scan query toks" and fr: "fresh (entries jstate)"
      and two: "\<exists>s \<in> set (replaced (entries js')). 2 \<le> length_bytes s" by simp_all
    from replaced_sum_gt[OF resolved_bounds[OF v fr r] two] f n show ?thesis by simp
  qed
  with n f show ?thesis by simp
qed

theorem normalized_length_formula_witness:
  "fill_in_constant_lengths [tok 0 6, tok 7 9, tok 9 10, tok 11 12]
     (jstate_of [fresh_span 11, fresh_span 7, fresh_span 7]) ''SELECT 42, 7'' =
     Inr (jstate_of [\<lparr>location = 7, length_bytes = 2\<rparr>, fresh_span 7,
                     \<lparr>location = 11, length_bytes = 1\<rparr>]) \<and>
   generate_normalized_query [tok 0 6, tok 7 9, tok 9 10, tok 11 12]
     (jstate_of [fresh_span 11, fresh_span 7, fresh_span 7]) ''SELECT 42, 7'' 12 =
     Inr (''SELECT ?, ?'', 11) \<and>
   int (length ''SELECT ?, ?'') = int (length ''SELECT 42, 7'') - (2 + 1) + 2"
proof -
  have a: "fill_in_constant_lengths [tok 0 6, tok 7 9, tok 9 10, tok 11 12]
     (jstate_of [fresh_span 11, fresh_span 7, fresh_span 7]) ''SELECT 42, 7'' =
     Inr (jstate_of [\<lparr>location = 7, length_bytes = 2\<rparr>, fresh_span 7,
                     \<lparr>location = 11, length_bytes = 1\<rparr>])"
    by (simp add: fill_in_constant_lengths_unfold store_entries_def jstate_of_def entries_def
          fresh_span_def tok_def query_at_def scanbuf_def strlen_def NUL_def)
  have b: "generate_normalized_query [tok 0 6, tok 7 9, tok 9 10, tok 11 12]
     (jstate_of [fresh_span 11, fresh_span 7, fresh_span 7]) ''SELECT 42, 7''
     (int (length ''SELECT 42, 7'')) = Inr (''SELECT ?, ?'', 11)"
    by (simp add: generate_normalized_query_unfold jstate_of_def entries_def fresh_span_def
          tok_def query_at_def scanbuf_def strlen_def NUL_def rewrite_init_def memcpy_from_def)
  from normalized_length_formula[OF a b] a b show ?thesis
    by (simp add: replaced_def entries_def jstate_of_def fresh_span_def)
qed


lemma output_fits:
  assumes "valid_scan query toks" and "fresh (entries js)"
    and "resolve_lengths query (-1) toks (sort_key location (entries js)) = Inr rs"
    and "rewrite_spans query rewrite_init rs = Inr st"
  shows "n_quer_loc st + (int (length query) - quer_loc st) \<le> int (length query)"
proof -
  have inv0: "rewrite_inv rewrite_init" by (simp add: rewrite_inv_def rewrite_init_def)
  from rewrite_spans_arith[OF assms(4) inv0]
  have "n_quer_loc st - quer_loc st =
       - sum_list (map length_bytes (replaced rs)) + int (length (replaced rs))"
    by (simp add: rewrite_init_def)
  with replaced_sum_ge[OF resolved_bounds[OF assms(1,2,3)]] show ?thesis by simp
qed

lemma generate_returns_iff:
  assumes "valid_scan query toks" and "fresh (entries js)"
    and "fill_in_constant_lengths toks js query = Inr js'"
  shows "(non_overlapping 0 (entries js') \<longrightarrow>
           (\<exists>out n. generate_normalized_query toks js query (int (length query)) =
              Inr (out, n))) \<and>
         (\<not> non_overlapping 0 (entries js') \<longrightarrow>
            generate_normalized_query toks js query (int (length query)) =
              Inl Assert_len_to_wrt_ge_0) \<and>
         (constants_at query toks (entries js) \<longrightarrow> non_overlapping 0 (entries js'))"
proof -
  let ?g = "generate_normalized_query toks js query (int (length query))"
  from fill_in_constant_lengths_entries[OF assms(3)]
  have r: "resolve_lengths query (-1) toks (sort_key location (entries js)) = Inr (entries js')" .
  have inv0: "rewrite_inv rewrite_init" by (simp add: rewrite_inv_def rewrite_init_def)
  from rewrite_spans_succeeds_iff[OF inv0, of query "entries js'"]
  have iff: "(\<exists>st. rewrite_spans query rewrite_init (entries js') = Inr st) \<longleftrightarrow>
               non_overlapping 0 (entries js')"
    by (simp add: rewrite_init_def)
  have pos: "\<exists>out n. ?g = Inr (out, n)" if "non_overlapping 0 (entries js')"
  proof -
    from that iff obtain st where w: "rewrite_spans query rewrite_init (entries js') = Inr st"
      by blast
    have "list_all (\<lambda>r. length_bytes r < 0 \<or> location r + length_bytes r \<le> int (length query))
            (entries js')"
      using resolved_bounds[OF assms(1,2) r] by (auto simp: list_all_iff)
    from rewrite_spans_quer_loc_le[OF w _ this]
    have le: "quer_loc st \<le> int (length query)" by (simp add: rewrite_init_def)
    from output_fits[OF assms(1,2) r w] le r w show ?thesis
      by (simp add: generate_normalized_query_unfold Let_def)
  qed
  have neg: "?g = Inl Assert_len_to_wrt_ge_0" if "\<not> non_overlapping 0 (entries js')"
  proof (cases "rewrite_spans query rewrite_init (entries js')")
    case (Inl f)
    with r rewrite_spans_Inl[OF Inl] show ?thesis
      by (simp add: generate_normalized_query_unfold)
  next
    case (Inr st)
    with that iff show ?thesis by blast
  qed
  have "non_overlapping 0 (entries js')" if "constants_at query toks (entries js)"
    using fill_in_non_overlapping[OF assms(1,2) that r] .
  with pos neg show ?thesis by blast
qed


lemma fill_in_constant_lengths_total:
  assumes "fresh (entries js)"
  shows "\<exists>js'. fill_in_constant_lengths toks js query = Inr js'"
proof -
  from resolve_lengths_total[of "sort_key location (entries js)" query "-1" toks]
    fresh_sort_key[OF assms]
  obtain rs where "resolve_lengths query (-1) toks (sort_key location (entries js)) = Inr rs"
    by (auto simp: fresh_def list_all_iff)
  then show ?thesis by (simp add: fill_in_constant_lengths_unfold)
qed

text \<open>
  C5: for a query without zero bytes, tokens as the scanner delivers them and records as the
  walker leaves them, the two assertions \<^verbatim>\<open>len_to_wrt >= 0\<close> hold in every round
  of the loop and behind it, and \<^verbatim>\<open>generate_normalized_query\<close> returns, exactly when
  the spans that the resolver has given a length do not overlap. They do not overlap when
  the text has constants at the recorded locations, as the parser provides them; then,
  when the allocator serves the appends, \<^verbatim>\<open>pg_query_normalize\<close> returns a string.
\<close>

theorem copy_length_never_negative:
  assumes "valid_scan query toks" and "fresh (entries jstate)"
    and "fill_in_constant_lengths toks jstate query = Inr js'"
  shows "(non_overlapping 0 (entries js') \<longrightarrow>
           (\<exists>out n. generate_normalized_query toks jstate query (int (length query)) =
              Inr (out, n))) \<and>
         (\<not> non_overlapping 0 (entries js') \<longrightarrow>
            generate_normalized_query toks jstate query (int (length query)) =
              Inl Assert_len_to_wrt_ge_0) \<and>
         (constants_at query toks (entries jstate) \<longrightarrow> non_overlapping 0 (entries js')) \<and>
         (core_yylex query = toks \<and> raw_parser query = Inr tree \<and>
          constants_at query toks (map fresh_span (recorded tree)) \<and>
          appends_succeed avail 0 (length (recorded tree)) \<longrightarrow>
            (\<exists>norm. pg_query_normalize avail raw_parser core_yylex (T_STRING query) =
               Inr (Returned norm)))"
proof -
  have "\<exists>norm. pg_query_normalize avail raw_parser core_yylex (T_STRING query) =
          Inr (Returned norm)"
    if h: "core_yylex query = toks \<and> raw_parser query = Inr tree \<and>
        constants_at query toks (map fresh_span (recorded tree)) \<and>
        appends_succeed avail 0 (length (recorded tree))"
  proof -
    let ?js0 = "\<lparr>clocations = replicate 32 None, clocations_buf_size = 32,
                  clocations_count = 0\<rparr>"
    from assms(1) have z: "NUL \<notin> set query" by (simp add: valid_scan_def)
    from h walker_collects(1)[of ?js0 avail tree] jstate_ok_initial obtain js where
      w: "const_record_walker avail tree ?js0 = Inr (PG_return False, js)"
      and e: "entries js = map fresh_span (recorded tree)"
      by (auto simp: entries_initial)
    from e fresh_recorded have fr: "fresh (entries js)" by simp
    from fill_in_constant_lengths_total[OF fr] obtain js2 where
      f: "fill_in_constant_lengths toks js query = Inr js2" by blast
    from h e have "constants_at query toks (entries js)" by simp
    with generate_returns_iff[OF assms(1) fr f] obtain out n where
      "generate_normalized_query toks js query (int (length query)) = Inr (out, n)"
      by blast
    with z h w show ?thesis by (simp add: pg_query_normalize_def)
  qed
  with generate_returns_iff[OF assms] show ?thesis by blast
qed

theorem copy_length_never_negative_witness:
  "valid_scan ''SELECT 42, 7'' [tok 0 6, tok 7 9, tok 9 10, tok 11 12] \<and>
   fresh (entries (jstate_of [fresh_span 11, fresh_span 7])) \<and>
   constants_at ''SELECT 42, 7'' [tok 0 6, tok 7 9, tok 9 10, tok 11 12]
     (entries (jstate_of [fresh_span 11, fresh_span 7])) \<and>
   fill_in_constant_lengths [tok 0 6, tok 7 9, tok 9 10, tok 11 12]
     (jstate_of [fresh_span 11, fresh_span 7]) ''SELECT 42, 7'' =
     Inr (jstate_of [\<lparr>location = 7, length_bytes = 2\<rparr>, \<lparr>location = 11, length_bytes = 1\<rparr>]) \<and>
   non_overlapping 0 (entries
     (jstate_of [\<lparr>location = 7, length_bytes = 2\<rparr>, \<lparr>location = 11, length_bytes = 1\<rparr>])) \<and>
   generate_normalized_query [tok 0 6, tok 7 9, tok 9 10, tok 11 12]
     (jstate_of [fresh_span 11, fresh_span 7]) ''SELECT 42, 7'' 12 = Inr (''SELECT ?, ?'', 11)"
proof -
  have a: "valid_scan ''SELECT 42, 7'' [tok 0 6, tok 7 9, tok 9 10, tok 11 12]"
    by (simp add: valid_scan_def NUL_def tok_def)
  have b: "fresh (entries (jstate_of [fresh_span 11, fresh_span 7]))"
    by (simp add: fresh_def entries_def jstate_of_def fresh_span_def)
  have c: "fill_in_constant_lengths [tok 0 6, tok 7 9, tok 9 10, tok 11 12]
     (jstate_of [fresh_span 11, fresh_span 7]) ''SELECT 42, 7'' =
     Inr (jstate_of [\<lparr>location = 7, length_bytes = 2\<rparr>, \<lparr>location = 11, length_bytes = 1\<rparr>])"
    by (simp add: fill_in_constant_lengths_unfold store_entries_def jstate_of_def entries_def
          fresh_span_def tok_def query_at_def scanbuf_def strlen_def NUL_def)
  have d: "non_overlapping 0 (entries
     (jstate_of [\<lparr>location = 7, length_bytes = 2\<rparr>, \<lparr>location = 11, length_bytes = 1\<rparr>]))"
    by (simp add: entries_def jstate_of_def)
  have e: "generate_normalized_query [tok 0 6, tok 7 9, tok 9 10, tok 11 12]
     (jstate_of [fresh_span 11, fresh_span 7]) ''SELECT 42, 7'' 12 = Inr (''SELECT ?, ?'', 11)"
    by (simp add: generate_normalized_query_unfold jstate_of_def entries_def fresh_span_def
          tok_def query_at_def scanbuf_def strlen_def NUL_def rewrite_init_def memcpy_from_def)
  have f: "constants_at ''SELECT 42, 7'' [tok 0 6, tok 7 9, tok 9 10, tok 11 12]
     (entries (jstate_of [fresh_span 11, fresh_span 7]))"
    by (simp add: constants_at_def entries_def jstate_of_def fresh_span_def tok_def query_at_def)
  from copy_length_never_negative[OF a b c] a b c d e f show ?thesis by simp
qed

section \<open>Locations recorded more than once\<close>

lemma replaced_fresh: "fresh ss \<Longrightarrow> replaced ss = []"
  by (induction ss) (simp_all add: fresh_def replaced_def)

lemma fresh_remdups_adj: "fresh ss \<Longrightarrow> fresh (remdups_adj ss)"
  by (simp add: fresh_def list_all_iff)

lemma resolve_lengths_strict:
  "resolve_lengths query last_loc toks ss = Inr rs \<Longrightarrow> fresh ss \<Longrightarrow>
     sorted_wrt (<) (map location (replaced rs)) \<and> (\<forall>r \<in> set (replaced rs). last_loc < location r)"
proof (induction ss arbitrary: last_loc toks rs)
  case Nil
  then show ?case by (simp add: replaced_def)
next
  case (Cons s ss)
  from Cons.prems(2) have s: "0 \<le> location s" "length_bytes s = -1" and rest: "fresh ss"
    by (simp_all add: fresh_def)
  show ?case
  proof (cases "location s \<le> last_loc")
    case True
    with Cons.prems(1) s obtain rs' where
      r: "resolve_lengths query last_loc toks ss = Inr rs'" and rs: "rs = s # rs'"
      by (auto simp: Let_def split: sum.splits)
    from Cons.IH[OF r rest] rs s show ?thesis by (simp add: replaced_def)
  next
    case False
    show ?thesis
    proof (cases "scan_for_constant query (location s) toks")
      case None
      with False Cons.prems(1) s have "rs = s # ss" by (simp add: Let_def)
      with replaced_fresh[OF Cons.prems(2)] show ?thesis by simp
    next
      case (Some a)
      obtain len toks' where a: "a = (len, toks')" by (cases a)
      with Some False Cons.prems(1) s obtain rs' where
        r: "resolve_lengths query (location s) toks' ss = Inr rs'"
        and rs: "rs = s\<lparr>length_bytes := len\<rparr> # rs'"
        by (auto simp: Let_def split: sum.splits)
      from Cons.IH[OF r rest] rs False show ?thesis
        by (auto simp: replaced_def)
    qed
  qed
qed

text \<open>A record that repeats the one before it changes nothing in what is replaced.\<close>

lemma resolve_lengths_repeat:
  assumes "length_bytes x = -1"
  shows "map_sum id replaced (resolve_lengths query last_loc toks (x # x # xs)) =
         map_sum id replaced (resolve_lengths query last_loc toks (x # xs))"
proof (cases "location x < 0")
  case True
  then show ?thesis by simp
next
  case nn: False
  show ?thesis
  proof (cases "location x \<le> last_loc")
    case True
    with nn assms show ?thesis
      by (cases "resolve_lengths query last_loc toks xs") (simp_all add: replaced_def)
  next
    case False
    show ?thesis
    proof (cases "scan_for_constant query (location x) toks")
      case None
      with nn False assms show ?thesis by (simp add: replaced_def)
    next
      case (Some a)
      obtain len toks' where a: "a = (len, toks')" by (cases a)
      with Some nn False assms show ?thesis
        by (cases "resolve_lengths query (location x) toks' xs") (simp_all add: replaced_def)
    qed
  qed
qed

lemma resolve_lengths_cong:
  assumes "\<And>last_loc toks. map_sum id replaced (resolve_lengths query last_loc toks ss) =
             map_sum id replaced (resolve_lengths query last_loc toks ss')"
    and "replaced ss = replaced ss'"
  shows "map_sum id replaced (resolve_lengths query last_loc toks (x # ss)) =
         map_sum id replaced (resolve_lengths query last_loc toks (x # ss'))"
proof (cases "location x < 0")
  case True
  then show ?thesis by simp
next
  case nn: False
  show ?thesis
  proof (cases "location x \<le> last_loc")
    case True
    with nn assms(1)[of last_loc toks] show ?thesis
      by (cases "resolve_lengths query last_loc toks ss";
          cases "resolve_lengths query last_loc toks ss'") (simp_all add: replaced_def)
  next
    case False
    show ?thesis
    proof (cases "scan_for_constant query (location x) toks")
      case None
      with nn False assms(2) show ?thesis by (simp add: replaced_def)
    next
      case (Some a)
      obtain len toks' where a: "a = (len, toks')" by (cases a)
      with Some nn False assms(1)[of "location x" toks'] show ?thesis
        by (cases "resolve_lengths query (location x) toks' ss";
            cases "resolve_lengths query (location x) toks' ss'") (simp_all add: replaced_def)
    qed
  qed
qed

lemma resolve_lengths_remdups_adj:
  "fresh ss \<Longrightarrow>
     map_sum id replaced (resolve_lengths query last_loc toks (remdups_adj ss)) =
     map_sum id replaced (resolve_lengths query last_loc toks ss)"
proof (induction ss arbitrary: last_loc toks rule: remdups_adj.induct)
  case 1
  show ?case by simp
next
  case (2 x)
  show ?case by simp
next
  case (3 x y xs)
  from "3.prems" have x: "length_bytes x = -1" and fy: "fresh (y # xs)" and fx: "fresh (x # xs)"
    by (simp_all add: fresh_def)
  show ?case
  proof (cases "x = y")
    case True
    have e: "remdups_adj (x # y # xs) = remdups_adj (x # xs)" using True by simp
    have "map_sum id replaced (resolve_lengths query last_loc toks (remdups_adj (x # xs))) =
          map_sum id replaced (resolve_lengths query last_loc toks (x # xs))"
      by (rule "3.IH"(1)[OF True fx])
    also have "\<dots> = map_sum id replaced (resolve_lengths query last_loc toks (x # x # xs))"
      by (rule resolve_lengths_repeat[OF x, symmetric])
    finally show ?thesis unfolding e unfolding True[symmetric] .
  next
    case False
    have e: "remdups_adj (x # y # xs) = x # remdups_adj (y # xs)" using False by simp
    have "map_sum id replaced (resolve_lengths query last_loc toks (x # remdups_adj (y # xs))) =
          map_sum id replaced (resolve_lengths query last_loc toks (x # y # xs))"
    proof (rule resolve_lengths_cong)
      fix l t
      show "map_sum id replaced (resolve_lengths query l t (remdups_adj (y # xs))) =
            map_sum id replaced (resolve_lengths query l t (y # xs))"
        using "3.IH"(2)[OF False fy] .
      show "replaced (remdups_adj (y # xs)) = replaced (y # xs)"
        using replaced_fresh[OF fy] replaced_fresh[OF fresh_remdups_adj[OF fy]] by simp
    qed
    then show ?thesis unfolding e .
  qed
qed

lemma insort_key_fresh_span:
  "insort_key location (fresh_span l) (map fresh_span ls) = map fresh_span (insort l ls)"
  by (induction ls) (simp_all add: fresh_span_def)

lemma sort_key_fresh_span:
  "sort_key location (map fresh_span ls) = map fresh_span (sort ls)"
  by (induction ls) (simp_all add: insort_key_fresh_span)

lemma fresh_map: "fresh ss \<Longrightarrow> ss = map fresh_span (map location ss)"
  by (induction ss) (simp_all add: fresh_def fresh_span_def)

lemma distinct_remdups_adj_sorted: "sorted xs \<Longrightarrow> distinct (remdups_adj xs)"
  by (induction xs rule: remdups_adj.induct) (auto)

lemma remdups_adj_sort_set:
  fixes xs ys :: "int list"
  assumes "set xs = set ys"
  shows "remdups_adj (sort xs) = remdups_adj (sort ys)"
  by (rule sorted_distinct_set_unique) (simp_all add: distinct_remdups_adj_sorted assms)

lemma inj_fresh_span: "inj fresh_span"
  by (rule injI) (simp add: fresh_span_def)

lemma sorted_spans_same_set:
  assumes "fresh ss" "fresh ss'" "set ss = set ss'"
  shows "remdups_adj (sort_key location ss) = remdups_adj (sort_key location ss')"
proof -
  from assms(3) have "set (map location ss) = set (map location ss')" by simp
  from remdups_adj_sort_set[OF this]
  have "map fresh_span (remdups_adj (sort (map location ss))) =
        map fresh_span (remdups_adj (sort (map location ss')))" by simp
  then have "remdups_adj (map fresh_span (sort (map location ss))) =
        remdups_adj (map fresh_span (sort (map location ss')))"
    by (simp add: remdups_adj_map_injective[OF inj_fresh_span])
  then have "remdups_adj (sort_key location (map fresh_span (map location ss))) =
        remdups_adj (sort_key location (map fresh_span (map location ss')))"
    by (simp only: sort_key_fresh_span)
  with fresh_map[OF assms(1)] fresh_map[OF assms(2)] show ?thesis by simp
qed

lemma generate_normalized_query_replaced:
  assumes "map_sum id replaced (resolve_lengths query (-1) toks (sort_key location (entries js))) =
           map_sum id replaced (resolve_lengths query (-1) toks (sort_key location (entries js')))"
  shows "generate_normalized_query toks js query n = generate_normalized_query toks js' query n"
proof -
  let ?r = "resolve_lengths query (-1) toks (sort_key location (entries js))"
  let ?r' = "resolve_lengths query (-1) toks (sort_key location (entries js'))"
  show ?thesis
  proof (cases ?r)
    case (Inl f)
    with assms have "?r' = Inl f" by (cases ?r') simp_all
    with Inl show ?thesis by (simp add: generate_normalized_query_unfold)
  next
    case (Inr rs)
    with assms obtain rs' where r': "?r' = Inr rs'" and eq: "replaced rs = replaced rs'"
      by (cases ?r') simp_all
    from eq have "rewrite_spans query rewrite_init rs = rewrite_spans query rewrite_init rs'"
      using rewrite_spans_replaced[of query rewrite_init rs]
            rewrite_spans_replaced[of query rewrite_init rs'] by simp
    with Inr r' show ?thesis by (simp add: generate_normalized_query_unfold)
  qed
qed

lemma generate_normalized_query_same_set:
  assumes "fresh (entries js)" "fresh (entries js')" "set (entries js) = set (entries js')"
  shows "generate_normalized_query toks js query n = generate_normalized_query toks js' query n"
proof (rule generate_normalized_query_replaced)
  let ?ss = "sort_key location (entries js)" and ?ss' = "sort_key location (entries js')"
  have "map_sum id replaced (resolve_lengths query (-1) toks ?ss) =
        map_sum id replaced (resolve_lengths query (-1) toks (remdups_adj ?ss))"
    using resolve_lengths_remdups_adj[OF fresh_sort_key[OF assms(1)]] by simp
  also have "remdups_adj ?ss = remdups_adj ?ss'"
    using assms by (rule sorted_spans_same_set)
  also have "map_sum id replaced (resolve_lengths query (-1) toks (remdups_adj ?ss')) =
        map_sum id replaced (resolve_lengths query (-1) toks ?ss')"
    using resolve_lengths_remdups_adj[OF fresh_sort_key[OF assms(2)]] by simp
  finally show "map_sum id replaced (resolve_lengths query (-1) toks ?ss) =
        map_sum id replaced (resolve_lengths query (-1) toks ?ss')" .
qed

text \<open>
  C2: the resolver passes over a span whose location is not behind the last resolved
  location: the span keeps its length \<open>-1\<close> and the scanner is not moved. The rewriting
  loop passes over every span with length \<open>-1\<close>. So the locations of the spans that are
  replaced are strictly ascending, that is, no location is replaced twice; and the result
  of \<^verbatim>\<open>generate_normalized_query\<close> depends only on the set of the recorded
  locations, not on how often each one was recorded.
\<close>

theorem duplicate_locations_replaced_once:
  "(0 \<le> location s \<and> location s \<le> last_loc \<longrightarrow>
      resolve_lengths query last_loc toks (s # ss) =
        map_sum id ((#) s) (resolve_lengths query last_loc toks ss)) \<and>
   (length_bytes s = -1 \<longrightarrow> rewrite_spans query st (s # ss) = rewrite_spans query st ss) \<and>
   (fresh (entries jstate) \<and> fill_in_constant_lengths toks jstate query = Inr js' \<longrightarrow>
      sorted_wrt (<) (map location (replaced (entries js')))) \<and>
   (fresh (entries jstate) \<and> fresh (entries jstate') \<and>
    set (entries jstate) = set (entries jstate') \<longrightarrow>
      generate_normalized_query toks jstate query n =
        generate_normalized_query toks jstate' query n)"
proof -
  have "resolve_lengths query last_loc toks (s # ss) =
        map_sum id ((#) s) (resolve_lengths query last_loc toks ss)"
    if "0 \<le> location s \<and> location s \<le> last_loc"
    using that by (cases "resolve_lengths query last_loc toks ss") simp_all
  moreover have "rewrite_spans query st (s # ss) = rewrite_spans query st ss"
    if "length_bytes s = -1"
    using that by simp
  moreover have "sorted_wrt (<) (map location (replaced (entries js')))"
    if "fresh (entries jstate) \<and> fill_in_constant_lengths toks jstate query = Inr js'"
  proof -
    from that fill_in_constant_lengths_entries[of toks jstate query js']
    have "resolve_lengths query (-1) toks (sort_key location (entries jstate)) = Inr (entries js')"
      by simp
    from resolve_lengths_strict[OF this] that fresh_sort_key show ?thesis by blast
  qed
  moreover have "generate_normalized_query toks jstate query n =
        generate_normalized_query toks jstate' query n"
    if "fresh (entries jstate) \<and> fresh (entries jstate') \<and>
        set (entries jstate) = set (entries jstate')"
    using that by (intro generate_normalized_query_same_set) simp_all
  ultimately show ?thesis by blast
qed

theorem duplicate_locations_replaced_once_witness:
  "fresh (entries (jstate_of [fresh_span 11, fresh_span 7, fresh_span 7])) \<and>
   fresh (entries (jstate_of [fresh_span 7, fresh_span 11])) \<and>
   set (entries (jstate_of [fresh_span 11, fresh_span 7, fresh_span 7])) =
     set (entries (jstate_of [fresh_span 7, fresh_span 11])) \<and>
   generate_normalized_query [tok 0 6, tok 7 9, tok 9 10, tok 11 12]
     (jstate_of [fresh_span 11, fresh_span 7, fresh_span 7]) ''SELECT 42, 7'' 12 =
     generate_normalized_query [tok 0 6, tok 7 9, tok 9 10, tok 11 12]
     (jstate_of [fresh_span 7, fresh_span 11]) ''SELECT 42, 7'' 12 \<and>
   generate_normalized_query [tok 0 6, tok 7 9, tok 9 10, tok 11 12]
     (jstate_of [fresh_span 11, fresh_span 7, fresh_span 7]) ''SELECT 42, 7'' 12 =
     Inr (''SELECT ?, ?'', 11)"
proof -
  have a: "fresh (entries (jstate_of [fresh_span 11, fresh_span 7, fresh_span 7]))"
    by (simp add: fresh_def entries_def jstate_of_def fresh_span_def)
  have b: "fresh (entries (jstate_of [fresh_span 7, fresh_span 11]))"
    by (simp add: fresh_def entries_def jstate_of_def fresh_span_def)
  have c: "set (entries (jstate_of [fresh_span 11, fresh_span 7, fresh_span 7])) =
     set (entries (jstate_of [fresh_span 7, fresh_span 11]))"
    by (auto simp: entries_def jstate_of_def)
  have d: "generate_normalized_query [tok 0 6, tok 7 9, tok 9 10, tok 11 12]
     (jstate_of [fresh_span 11, fresh_span 7, fresh_span 7]) ''SELECT 42, 7'' 12 =
     Inr (''SELECT ?, ?'', 11)"
    by (simp add: generate_normalized_query_unfold jstate_of_def entries_def fresh_span_def
          tok_def query_at_def scanbuf_def strlen_def NUL_def rewrite_init_def memcpy_from_def)
  from duplicate_locations_replaced_once[where
      jstate = "jstate_of [fresh_span 11, fresh_span 7, fresh_span 7]"
      and toks = "[tok 0 6, tok 7 9, tok 9 10, tok 11 12]"
      and jstate' = "jstate_of [fresh_span 7, fresh_span 11]"
      and query = "''SELECT 42, 7''" and n = 12] a b c
  have "generate_normalized_query [tok 0 6, tok 7 9, tok 9 10, tok 11 12]
     (jstate_of [fresh_span 11, fresh_span 7, fresh_span 7]) ''SELECT 42, 7'' 12 =
     generate_normalized_query [tok 0 6, tok 7 9, tok 9 10, tok 11 12]
     (jstate_of [fresh_span 7, fresh_span 11]) ''SELECT 42, 7'' 12"
    by blast
  with a b c d show ?thesis by simp
qed

end
